theory Spec2Isabelle
  imports Main "HOL-Library.Word"
begin

section \<open>NumPy arrays and the operations the notebook uses\<close>

text \<open>
  The notebook \<^verbatim>\<open>cnn.ipynb\<close> builds its arrays with \<^verbatim>\<open>np.array\<close> from lists of Python
  integers, so they have NumPy's default integer dtype, \<^verbatim>\<open>int64\<close>: multiplication and
  \<^verbatim>\<open>np.sum\<close> wrap around modulo \<open>2 ^ 64\<close>, and \<^verbatim>\<open>np.max\<close> compares signed values.
  A two-dimensional array is the list of its rows, all of one length; an array without
  rows has no columns in this representation. Every output array is made by
  \<^verbatim>\<open>np.zeros\<close> and so has dtype \<^verbatim>\<open>float64\<close>; storing an \<^verbatim>\<open>int64\<close> into it rounds the value
  to the nearest double. The double of an integer is again an integer, so a \<^verbatim>\<open>float64\<close>
  array is modelled by the list of rows of the exact integer values of its cells.
  The parameters \<^verbatim>\<open>image\<close> and \<^verbatim>\<open>kernel\<close> of the notebook are written \<open>img\<close> and \<open>kern\<close>,
  since \<open>image\<close> and \<open>kernel\<close> are constants of HOL. Allocation is taken to succeed:
  there is no \<^verbatim>\<open>MemoryError\<close>.
\<close>

type_synonym int64 = "64 word"
type_synonym int64_array = "int64 list list"
type_synonym float64_array = "int list list"

datatype np_error = ValueError | ZeroDivisionError | IndexError

text \<open>\<^verbatim>\<open>a.shape[0]\<close> and \<^verbatim>\<open>a.shape[1]\<close>.\<close>

definition shape0 :: "'a list list \<Rightarrow> nat" where
  "shape0 a = length a"

definition shape1 :: "'a list list \<Rightarrow> nat" where
  "shape1 a = (case a of [] \<Rightarrow> 0 | r # _ \<Rightarrow> length r)"

text \<open>An array of \<open>r\<close> rows and \<open>c\<close> columns.\<close>

definition is_array :: "nat \<Rightarrow> nat \<Rightarrow> 'a list list \<Rightarrow> bool" where
  "is_array r c a \<longleftrightarrow> length a = r \<and> list_all (\<lambda>row. length row = c) a"

subsection \<open>Conversion from \<^verbatim>\<open>int64\<close> to \<^verbatim>\<open>float64\<close>\<close>

text \<open>
  A double has a significand of 53 bits. An integer of at most 53 bits is a double;
  a longer one is rounded to the nearest multiple of \<open>2 ^ e\<close>, where \<open>e\<close> is the number
  of bits beyond 53, and a tie goes to the even significand. (No integer that arises
  here reaches \<open>2 ^ 1024\<close>, where a double overflows.)
\<close>

function bit_length :: "int \<Rightarrow> nat" where
  "bit_length a = (if a \<le> 0 then 0 else Suc (bit_length (a div 2)))"
  by pat_completeness auto
termination
  by (relation "measure nat") auto

declare bit_length.simps [simp del]

definition round_even :: "int \<Rightarrow> nat \<Rightarrow> int" where
  "round_even a e =
     (let q = a div 2 ^ e; r = a mod 2 ^ e
      in (if 2 ^ e < 2 * r \<or> (2 * r = 2 ^ e \<and> odd q) then q + 1 else q) * 2 ^ e)"

definition float64_of_int :: "int \<Rightarrow> int" where
  "float64_of_int x = sgn x * round_even \<bar>x\<bar> (bit_length \<bar>x\<bar> - 53)"

definition float64_of_int64 :: "int64 \<Rightarrow> int" where
  "float64_of_int64 w = float64_of_int (sint w)"

text \<open>Addition of two doubles with integer values: the exact sum, rounded.\<close>

definition float64_add :: "int \<Rightarrow> int \<Rightarrow> int" where
  "float64_add x y = float64_of_int (x + y)"

subsection \<open>Slices\<close>

text \<open>
  \<^verbatim>\<open>xs[start:stop]\<close>: a negative bound counts from the end, and every bound is clipped
  to the length; a slice never raises.
\<close>

definition slice_index :: "int \<Rightarrow> nat \<Rightarrow> nat" where
  "slice_index a n = (if a < 0 then nat (a + int n) else min (nat a) n)"

definition py_slice :: "int \<Rightarrow> int \<Rightarrow> 'a list \<Rightarrow> 'a list" where
  "py_slice start stop xs =
     (let s = slice_index start (length xs); e = slice_index stop (length xs)
      in take (e - s) (drop s xs))"

text \<open>\<^verbatim>\<open>a[r0:r1, c0:c1]\<close>.\<close>

definition slice2d :: "'a list list \<Rightarrow> int \<Rightarrow> int \<Rightarrow> int \<Rightarrow> int \<Rightarrow> 'a list list" where
  "slice2d a r0 r1 c0 c1 = map (py_slice c0 c1) (py_slice r0 r1 a)"

text \<open>
  A window is the four bounds \<open>(r0, r1, c0, c1)\<close> of such a slice; \<open>slice_at\<close> reads the
  window from an array.
\<close>

type_synonym window = "int \<times> int \<times> int \<times> int"

definition slice_at :: "'a list list \<Rightarrow> window \<Rightarrow> 'a list list" where
  "slice_at a w = (case w of (r0, r1, c0, c1) \<Rightarrow> slice2d a r0 r1 c0 c1)"

subsection \<open>Element-wise product, sum, maximum, zeros, padding\<close>

text \<open>
  \<^verbatim>\<open>x * y\<close> broadcasts: along each axis the two lengths are equal or one of them is 1,
  otherwise NumPy raises \<^verbatim>\<open>ValueError\<close>.
\<close>

definition broadcast_dim :: "nat \<Rightarrow> nat \<Rightarrow> nat option" where
  "broadcast_dim a b =
     (if a = b then Some a else if a = 1 then Some b else if b = 1 then Some a else None)"

definition stretch :: "nat \<Rightarrow> 'a list \<Rightarrow> 'a list" where
  "stretch n xs = (case xs of [x] \<Rightarrow> replicate n x | _ \<Rightarrow> xs)"

definition broadcast2 :: "('a \<Rightarrow> 'a \<Rightarrow> 'b) \<Rightarrow> 'a list list \<Rightarrow> 'a list list
    \<Rightarrow> np_error + 'b list list" where
  "broadcast2 f x y =
     (case broadcast_dim (shape0 x) (shape0 y) of
        None \<Rightarrow> Inl ValueError
      | Some r \<Rightarrow>
         (case broadcast_dim (shape1 x) (shape1 y) of
            None \<Rightarrow> Inl ValueError
          | Some c \<Rightarrow>
              Inr (map2 (\<lambda>xr yr. map2 f (stretch c xr) (stretch c yr))
                     (stretch r x) (stretch r y))))"

text \<open>\<^verbatim>\<open>x * y\<close> and \<^verbatim>\<open>x + y\<close> on \<^verbatim>\<open>int64\<close> arrays wrap around.\<close>

definition np_multiply :: "int64_array \<Rightarrow> int64_array \<Rightarrow> np_error + int64_array" where
  "np_multiply x y = broadcast2 (*) x y"

definition np_add :: "int64_array \<Rightarrow> int64_array \<Rightarrow> np_error + int64_array" where
  "np_add x y = broadcast2 (+) x y"

text \<open>\<^verbatim>\<open>x + y\<close> on \<^verbatim>\<open>float64\<close> arrays rounds each sum.\<close>

definition np_add_float64 :: "float64_array \<Rightarrow> float64_array \<Rightarrow> np_error + float64_array" where
  "np_add_float64 x y = broadcast2 float64_add x y"

definition np_sum :: "int64_array \<Rightarrow> int64" where
  "np_sum a = sum_list (concat a)"

definition smax :: "int64 \<Rightarrow> int64 \<Rightarrow> int64" where
  "smax a b = (if a <s b then b else a)"

text \<open>\<^verbatim>\<open>np.max\<close> of an array without elements raises \<^verbatim>\<open>ValueError\<close>.\<close>

definition np_max :: "int64_array \<Rightarrow> np_error + int64" where
  "np_max a = (case concat a of [] \<Rightarrow> Inl ValueError | x # xs \<Rightarrow> Inr (fold smax xs x))"

text \<open>\<^verbatim>\<open>np.zeros((n, n))\<close> raises \<^verbatim>\<open>ValueError\<close> for a negative \<open>n\<close>.\<close>

definition np_zeros :: "int \<Rightarrow> np_error + float64_array" where
  "np_zeros n = (if n < 0 then Inl ValueError else Inr (replicate (nat n) (replicate (nat n) 0)))"

text \<open>
  \<^verbatim>\<open>np.pad(a, pad_width=p, mode='constant', constant_values=0)\<close> raises \<^verbatim>\<open>ValueError\<close>
  for a negative \<open>p\<close>.
\<close>

definition np_pad :: "int64_array \<Rightarrow> int \<Rightarrow> np_error + int64_array" where
  "np_pad a p =
     (if p < 0 then Inl ValueError
      else let border = replicate (nat p) (replicate (shape1 a + 2 * nat p) 0)
           in Inr (border @ map (\<lambda>row. replicate (nat p) 0 @ row @ replicate (nat p) 0) a @ border))"

text \<open>
  \<^verbatim>\<open>output[i, j] = v\<close> for indices \<open>i, j \<ge> 0\<close>: NumPy raises \<^verbatim>\<open>IndexError\<close> for an index
  that is not below the size of its axis.
\<close>

definition setitem :: "float64_array \<Rightarrow> nat \<Rightarrow> nat \<Rightarrow> int \<Rightarrow> np_error + float64_array" where
  "setitem output i j v =
     (if i < shape0 output \<and> j < shape1 output
      then Inr (output[i := (output ! i)[j := v]])
      else Inl IndexError)"

section \<open>The three functions of the notebook\<close>

text \<open>
  Each function fills its output by the same nested iteration,
  \<^verbatim>\<open>for i in range(n): for j in range(n): output[i, j] = cell\<close>; an exception raised by
  the computation of a cell or by the store ends it.
\<close>

fun loop_j :: "(nat \<Rightarrow> np_error + int) \<Rightarrow> nat \<Rightarrow> nat list \<Rightarrow> float64_array
    \<Rightarrow> np_error + float64_array" where
  "loop_j cell i [] output = Inr output"
| "loop_j cell i (j # js) output =
     (case cell j of
        Inl e \<Rightarrow> Inl e
      | Inr v \<Rightarrow>
          (case setitem output i j v of
             Inl e \<Rightarrow> Inl e
           | Inr output' \<Rightarrow> loop_j cell i js output'))"

fun loop_i :: "(nat \<Rightarrow> nat \<Rightarrow> np_error + int) \<Rightarrow> nat list \<Rightarrow> nat list \<Rightarrow> float64_array
    \<Rightarrow> np_error + float64_array" where
  "loop_i cell [] js output = Inr output"
| "loop_i cell (i # is) js output =
     (case loop_j (cell i) i js output of
        Inl e \<Rightarrow> Inl e
      | Inr output' \<Rightarrow> loop_i cell is js output')"

text \<open>
  The window \<^verbatim>\<open>[i:i+kernel_size, j:j+kernel_size]\<close> that the convolutions read for the
  cell \<open>(i, j)\<close>, and \<^verbatim>\<open>np.sum(a[i:i+kernel_size, j:j+kernel_size] * kernel)\<close>, stored into
  a double.
\<close>

definition sum_window :: "int \<Rightarrow> nat \<Rightarrow> nat \<Rightarrow> window" where
  "sum_window kernel_size i j = (int i, int i + kernel_size, int j, int j + kernel_size)"

definition window_sum :: "int64_array \<Rightarrow> int64_array \<Rightarrow> int \<Rightarrow> nat \<Rightarrow> nat
    \<Rightarrow> np_error + int" where
  "window_sum a kern kernel_size i j =
     (case np_multiply (slice_at a (sum_window kernel_size i j)) kern of
        Inl e \<Rightarrow> Inl e
      | Inr product \<Rightarrow> Inr (float64_of_int64 (np_sum product)))"

definition convolution2d :: "int64_array \<Rightarrow> int64_array \<Rightarrow> np_error + float64_array" where
  "convolution2d img kern =
     (let kernel_size = int (shape0 kern);
          output_size = int (shape0 img) - kernel_size + 1
      in case np_zeros output_size of
           Inl e \<Rightarrow> Inl e
         | Inr output \<Rightarrow>
             loop_i (window_sum img kern kernel_size)
               [0..<nat output_size] [0..<nat output_size] output)"

definition convolution2d_with_padding :: "int64_array \<Rightarrow> int64_array \<Rightarrow> int
    \<Rightarrow> np_error + float64_array" where
  "convolution2d_with_padding img kern padding =
     (let kernel_size = int (shape0 kern)
      in case np_pad img padding of
           Inl e \<Rightarrow> Inl e
         | Inr padded_image \<Rightarrow>
            (let output_size = int (shape0 img)
             in case np_zeros output_size of
                  Inl e \<Rightarrow> Inl e
                | Inr output \<Rightarrow>
                    loop_i (window_sum padded_image kern kernel_size)
                      [0..<nat output_size] [0..<nat output_size] output))"

text \<open>
  The window \<^verbatim>\<open>[i*stride:i*stride+pool_size, j*stride:j*stride+pool_size]\<close> that the
  pooling reads for the cell \<open>(i, j)\<close>, and \<^verbatim>\<open>np.max\<close> of that slice of the image, stored
  into a double.
\<close>

definition max_window :: "int \<Rightarrow> int \<Rightarrow> nat \<Rightarrow> nat \<Rightarrow> window" where
  "max_window pool_size stride i j =
     (int i * stride, int i * stride + pool_size, int j * stride, int j * stride + pool_size)"

definition window_max :: "int64_array \<Rightarrow> int \<Rightarrow> int \<Rightarrow> nat \<Rightarrow> nat \<Rightarrow> np_error + int" where
  "window_max img pool_size stride i j =
     (case np_max (slice_at img (max_window pool_size stride i j)) of
        Inl e \<Rightarrow> Inl e
      | Inr v \<Rightarrow> Inr (float64_of_int64 v))"

text \<open>Python's \<^verbatim>\<open>//\<close> rounds down, as \<open>div\<close> does, and raises for a zero divisor.\<close>

definition max_pooling2d :: "int64_array \<Rightarrow> int \<Rightarrow> int \<Rightarrow> np_error + float64_array" where
  "max_pooling2d img pool_size stride =
     (if stride = 0 then Inl ZeroDivisionError
      else let output_size = (int (shape0 img) - pool_size) div stride + 1
           in case np_zeros output_size of
                Inl e \<Rightarrow> Inl e
              | Inr output \<Rightarrow>
                  loop_i (window_max img pool_size stride)
                    [0..<nat output_size] [0..<nat output_size] output)"

subsection \<open>The arrays of the notebook\<close>

definition input_image :: int64_array where
  "input_image =
     [[1, 2, 3, 4, 5],
      [6, 7, 8, 9, 10],
      [11, 12, 13, 14, 15],
      [16, 17, 18, 19, 20],
      [21, 22, 23, 24, 25]]"

definition filter_kernel :: int64_array where
  "filter_kernel =
     [[1, 0, - 1],
      [1, 0, - 1],
      [1, 0, - 1]]"

section \<open>The quantities the specification speaks of\<close>

text \<open>
  The sliding-window weighted sum
  \<open>\<Sum>m<k. \<Sum>n<k. image[i+m][j+n] \<cdot> kernel[m][n]\<close> over the integers, and the reduction
  of an integer to the \<^verbatim>\<open>int64\<close> range that wrap-around arithmetic computes.
\<close>

definition weighted_sum :: "int64_array \<Rightarrow> int64_array \<Rightarrow> nat \<Rightarrow> nat \<Rightarrow> nat \<Rightarrow> int" where
  "weighted_sum img kern k i j =
     (\<Sum>m\<leftarrow>[0..<k]. \<Sum>n\<leftarrow>[0..<k]. sint (img ! (i + m) ! (j + n)) * sint (kern ! m ! n))"

definition wrap_int64 :: "int \<Rightarrow> int" where
  "wrap_int64 x = signed_take_bit 63 x"

text \<open>
  The maximum of the \<open>p \<times> p\<close> window
  \<open>image[i\<cdot>s .. i\<cdot>s+p-1][j\<cdot>s .. j\<cdot>s+p-1]\<close>, the cells read as signed integers.
\<close>

definition window_maximum :: "int64_array \<Rightarrow> nat \<Rightarrow> nat \<Rightarrow> nat \<Rightarrow> nat \<Rightarrow> int" where
  "window_maximum img p s i j =
     Max (set (concat (map (\<lambda>r. map (\<lambda>c. sint (img ! r ! c)) [j * s..<j * s + p])
                         [i * s..<i * s + p])))"

text \<open>
  An \<open>N \<times> N\<close> image zero-padded by \<open>p\<close> on every side: the \<open>(N + 2p) \<times> (N + 2p)\<close> grid that
  holds the image in its middle and 0 elsewhere.
\<close>

definition zero_padded :: "nat \<Rightarrow> int64_array \<Rightarrow> nat \<Rightarrow> int64_array" where
  "zero_padded N img p =
     map (\<lambda>r. map (\<lambda>c. if p \<le> r \<and> r < p + N \<and> p \<le> c \<and> c < p + N
                        then img ! (r - p) ! (c - p) else 0)
                [0..<N + 2 * p])
       [0..<N + 2 * p]"

section \<open>The functions with a record of their array accesses\<close>

text \<open>
  The functions index arrays in two ways: they read a window by a slice, and they store
  one cell of the output. (\<^verbatim>\<open>np.pad\<close>, the product with the kernel, \<^verbatim>\<open>np.sum\<close> and \<^verbatim>\<open>np.max\<close>
  take an array as a whole.) The functions below are the three functions with a record
  of these accesses, in the order in which they are performed, each with the shape of the
  array that is accessed. A window lies within an array when its bounds are ordered and
  none is clipped; a store lies within an array when each index is below the size of its
  axis.
\<close>

datatype access =
    Read_window nat nat window
  | Store_item nat nat nat nat

definition window_within :: "nat \<Rightarrow> nat \<Rightarrow> window \<Rightarrow> bool" where
  "window_within rows cols w =
     (case w of (r0, r1, c0, c1) \<Rightarrow>
        0 \<le> r0 \<and> r0 \<le> r1 \<and> r1 \<le> int rows \<and> 0 \<le> c0 \<and> c0 \<le> c1 \<and> c1 \<le> int cols)"

definition in_bounds :: "access \<Rightarrow> bool" where
  "in_bounds x =
     (case x of
        Read_window rows cols w \<Rightarrow> window_within rows cols w
      | Store_item rows cols i j \<Rightarrow> i < rows \<and> j < cols)"

type_synonym 'a traced = "(np_error + 'a) \<times> access list"

fun loop_j_traced :: "(nat \<Rightarrow> int traced) \<Rightarrow> nat \<Rightarrow> nat list \<Rightarrow> float64_array
    \<Rightarrow> float64_array traced" where
  "loop_j_traced cell i [] output = (Inr output, [])"
| "loop_j_traced cell i (j # js) output =
     (case cell j of
        (Inl e, reads) \<Rightarrow> (Inl e, reads)
      | (Inr v, reads) \<Rightarrow>
          (let store = Store_item (shape0 output) (shape1 output) i j
           in case setitem output i j v of
                Inl e \<Rightarrow> (Inl e, reads @ [store])
              | Inr output' \<Rightarrow>
                  (case loop_j_traced cell i js output' of
                     (r, rest) \<Rightarrow> (r, reads @ store # rest))))"

fun loop_i_traced :: "(nat \<Rightarrow> nat \<Rightarrow> int traced) \<Rightarrow> nat list \<Rightarrow> nat list \<Rightarrow> float64_array
    \<Rightarrow> float64_array traced" where
  "loop_i_traced cell [] js output = (Inr output, [])"
| "loop_i_traced cell (i # is) js output =
     (case loop_j_traced (cell i) i js output of
        (Inl e, accesses) \<Rightarrow> (Inl e, accesses)
      | (Inr output', accesses) \<Rightarrow>
          (case loop_i_traced cell is js output' of
             (r, rest) \<Rightarrow> (r, accesses @ rest)))"

definition window_sum_traced :: "int64_array \<Rightarrow> int64_array \<Rightarrow> int \<Rightarrow> nat \<Rightarrow> nat
    \<Rightarrow> int traced" where
  "window_sum_traced a kern kernel_size i j =
     (window_sum a kern kernel_size i j,
      [Read_window (shape0 a) (shape1 a) (sum_window kernel_size i j)])"

definition window_max_traced :: "int64_array \<Rightarrow> int \<Rightarrow> int \<Rightarrow> nat \<Rightarrow> nat \<Rightarrow> int traced" where
  "window_max_traced img pool_size stride i j =
     (window_max img pool_size stride i j,
      [Read_window (shape0 img) (shape1 img) (max_window pool_size stride i j)])"

definition convolution2d_traced :: "int64_array \<Rightarrow> int64_array \<Rightarrow> float64_array traced" where
  "convolution2d_traced img kern =
     (let kernel_size = int (shape0 kern);
          output_size = int (shape0 img) - kernel_size + 1
      in case np_zeros output_size of
           Inl e \<Rightarrow> (Inl e, [])
         | Inr output \<Rightarrow>
             loop_i_traced (window_sum_traced img kern kernel_size)
               [0..<nat output_size] [0..<nat output_size] output)"

definition convolution2d_with_padding_traced :: "int64_array \<Rightarrow> int64_array \<Rightarrow> int
    \<Rightarrow> float64_array traced" where
  "convolution2d_with_padding_traced img kern padding =
     (let kernel_size = int (shape0 kern)
      in case np_pad img padding of
           Inl e \<Rightarrow> (Inl e, [])
         | Inr padded_image \<Rightarrow>
            (let output_size = int (shape0 img)
             in case np_zeros output_size of
                  Inl e \<Rightarrow> (Inl e, [])
                | Inr output \<Rightarrow>
                    loop_i_traced (window_sum_traced padded_image kern kernel_size)
                      [0..<nat output_size] [0..<nat output_size] output))"

definition max_pooling2d_traced :: "int64_array \<Rightarrow> int \<Rightarrow> int \<Rightarrow> float64_array traced" where
  "max_pooling2d_traced img pool_size stride =
     (if stride = 0 then (Inl ZeroDivisionError, [])
      else let output_size = (int (shape0 img) - pool_size) div stride + 1
           in case np_zeros output_size of
                Inl e \<Rightarrow> (Inl e, [])
              | Inr output \<Rightarrow>
                  loop_i_traced (window_max_traced img pool_size stride)
                    [0..<nat output_size] [0..<nat output_size] output)"

section \<open>The functions on a heap of arrays\<close>

text \<open>
  In Python the arguments are references to arrays, \<^verbatim>\<open>np.zeros\<close> and \<^verbatim>\<open>np.pad\<close> allocate a
  new array, a slice is a view that is only read, and \<^verbatim>\<open>output[i, j] = v\<close> writes into
  the array that \<^verbatim>\<open>output\<close> refers to. The heap is the list of the arrays allocated so
  far; an address is an index into it, and allocation appends. A call returns the
  final heap together with the address of the result or the exception raised. The
  result \<open>None\<close> stands for a call outside this model: an argument that is not the
  address of an \<^verbatim>\<open>int64\<close> array.
\<close>

datatype ndarray = Int64Array int64_array | Float64Array float64_array

type_synonym addr = nat
type_synonym heap = "ndarray list"
type_synonym 'a run = "((np_error + 'a) \<times> heap) option"

definition load_int64 :: "heap \<Rightarrow> addr \<Rightarrow> int64_array option" where
  "load_int64 h p =
     (if p < length h
      then (case h ! p of Int64Array a \<Rightarrow> Some a | Float64Array _ \<Rightarrow> None)
      else None)"

definition allocate :: "heap \<Rightarrow> ndarray \<Rightarrow> heap \<times> addr" where
  "allocate h a = (h @ [a], length h)"

text \<open>\<^verbatim>\<open>output[i, j] = v\<close> on the heap: the new heap, or the exception of the store.\<close>

definition store_item :: "heap \<Rightarrow> addr \<Rightarrow> nat \<Rightarrow> nat \<Rightarrow> int \<Rightarrow> (np_error + heap) option" where
  "store_item h p i j v =
     (if p < length h
      then (case h ! p of
              Float64Array a \<Rightarrow>
                (case setitem a i j v of
                   Inl e \<Rightarrow> Some (Inl e)
                 | Inr a' \<Rightarrow> Some (Inr (h[p := Float64Array a'])))
            | Int64Array _ \<Rightarrow> None)
      else None)"

fun loop_j_heap :: "(heap \<Rightarrow> nat \<Rightarrow> (np_error + int) option) \<Rightarrow> addr \<Rightarrow> nat \<Rightarrow> nat list
    \<Rightarrow> heap \<Rightarrow> unit run" where
  "loop_j_heap cell output i [] h = Some (Inr (), h)"
| "loop_j_heap cell output i (j # js) h =
     (case cell h j of
        None \<Rightarrow> None
      | Some (Inl e) \<Rightarrow> Some (Inl e, h)
      | Some (Inr v) \<Rightarrow>
          (case store_item h output i j v of
             None \<Rightarrow> None
           | Some (Inl e) \<Rightarrow> Some (Inl e, h)
           | Some (Inr h') \<Rightarrow> loop_j_heap cell output i js h'))"

fun loop_i_heap :: "(heap \<Rightarrow> nat \<Rightarrow> nat \<Rightarrow> (np_error + int) option) \<Rightarrow> addr \<Rightarrow> nat list
    \<Rightarrow> nat list \<Rightarrow> heap \<Rightarrow> unit run" where
  "loop_i_heap cell output [] js h = Some (Inr (), h)"
| "loop_i_heap cell output (i # is) js h =
     (case loop_j_heap (\<lambda>h'. cell h' i) output i js h of
        None \<Rightarrow> None
      | Some (Inl e, h') \<Rightarrow> Some (Inl e, h')
      | Some (Inr u, h') \<Rightarrow> loop_i_heap cell output is js h')"

text \<open>The cells are computed from the arrays that the heap holds when the cell is reached.\<close>

definition window_sum_heap :: "addr \<Rightarrow> addr \<Rightarrow> int \<Rightarrow> heap \<Rightarrow> nat \<Rightarrow> nat
    \<Rightarrow> (np_error + int) option" where
  "window_sum_heap a kern kernel_size h i j =
     (case load_int64 h a of
        None \<Rightarrow> None
      | Some x \<Rightarrow>
          (case load_int64 h kern of
             None \<Rightarrow> None
           | Some y \<Rightarrow> Some (window_sum x y kernel_size i j)))"

definition window_max_heap :: "addr \<Rightarrow> int \<Rightarrow> int \<Rightarrow> heap \<Rightarrow> nat \<Rightarrow> nat
    \<Rightarrow> (np_error + int) option" where
  "window_max_heap img pool_size stride h i j =
     (case load_int64 h img of
        None \<Rightarrow> None
      | Some x \<Rightarrow> Some (window_max x pool_size stride i j))"

text \<open>The iteration of a function over its output, and the address it returns at the end.\<close>

definition fill :: "(heap \<Rightarrow> nat \<Rightarrow> nat \<Rightarrow> (np_error + int) option) \<Rightarrow> addr \<Rightarrow> int \<Rightarrow> heap
    \<Rightarrow> addr run" where
  "fill cell output output_size h =
     (case loop_i_heap cell output [0..<nat output_size] [0..<nat output_size] h of
        None \<Rightarrow> None
      | Some (Inl e, h') \<Rightarrow> Some (Inl e, h')
      | Some (Inr u, h') \<Rightarrow> Some (Inr output, h'))"

definition convolution2d_heap :: "heap \<Rightarrow> addr \<Rightarrow> addr \<Rightarrow> addr run" where
  "convolution2d_heap h img kern =
     (case load_int64 h kern of
        None \<Rightarrow> None
      | Some k \<Rightarrow>
         (case load_int64 h img of
            None \<Rightarrow> None
          | Some a \<Rightarrow>
             (let kernel_size = int (shape0 k);
                  output_size = int (shape0 a) - kernel_size + 1
              in case np_zeros output_size of
                   Inl e \<Rightarrow> Some (Inl e, h)
                 | Inr zeros \<Rightarrow>
                     (let (h1, output) = allocate h (Float64Array zeros)
                      in fill (window_sum_heap img kern kernel_size) output output_size h1))))"

definition convolution2d_with_padding_heap :: "heap \<Rightarrow> addr \<Rightarrow> addr \<Rightarrow> int \<Rightarrow> addr run" where
  "convolution2d_with_padding_heap h img kern padding =
     (case load_int64 h kern of
        None \<Rightarrow> None
      | Some k \<Rightarrow>
         (case load_int64 h img of
            None \<Rightarrow> None
          | Some a \<Rightarrow>
             (let kernel_size = int (shape0 k)
              in case np_pad a padding of
                   Inl e \<Rightarrow> Some (Inl e, h)
                 | Inr padded \<Rightarrow>
                     (let (h1, padded_image) = allocate h (Int64Array padded);
                          output_size = int (shape0 a)
                      in case np_zeros output_size of
                           Inl e \<Rightarrow> Some (Inl e, h1)
                         | Inr zeros \<Rightarrow>
                             (let (h2, output) = allocate h1 (Float64Array zeros)
                              in fill (window_sum_heap padded_image kern kernel_size)
                                   output output_size h2)))))"

definition max_pooling2d_heap :: "heap \<Rightarrow> addr \<Rightarrow> int \<Rightarrow> int \<Rightarrow> addr run" where
  "max_pooling2d_heap h img pool_size stride =
     (case load_int64 h img of
        None \<Rightarrow> None
      | Some a \<Rightarrow>
         (if stride = 0 then Some (Inl ZeroDivisionError, h)
          else let output_size = (int (shape0 a) - pool_size) div stride + 1
               in case np_zeros output_size of
                    Inl e \<Rightarrow> Some (Inl e, h)
                  | Inr zeros \<Rightarrow>
                      (let (h1, output) = allocate h (Float64Array zeros)
                       in fill (window_max_heap img pool_size stride) output output_size h1)))"

text \<open>What a caller observes of a run: the exception, or the array at the returned address.\<close>

definition result_of :: "addr run \<Rightarrow> (np_error + ndarray) option" where
  "result_of r =
     (case r of
        None \<Rightarrow> None
      | Some (Inl e, h) \<Rightarrow> Some (Inl e)
      | Some (Inr p, h) \<Rightarrow> Some (Inr (h ! p)))"

text \<open>The same observation of a run on arrays passed by value.\<close>

definition result_of_value :: "np_error + float64_array \<Rightarrow> np_error + ndarray" where
  "result_of_value r = (case r of Inl e \<Rightarrow> Inl e | Inr a \<Rightarrow> Inr (Float64Array a))"

text \<open>
  A run from the heap \<open>h\<close> to the heap \<open>h'\<close> has written only to arrays it allocated when
  every array of \<open>h\<close> is still in its place in \<open>h'\<close>, and a returned address is a new one.
\<close>

definition writes_only_fresh :: "heap \<Rightarrow> heap \<Rightarrow> np_error + addr \<Rightarrow> bool" where
  "writes_only_fresh h h' res \<longleftrightarrow>
     take (length h) h' = h \<and>
     (case res of Inl e \<Rightarrow> True | Inr p \<Rightarrow> length h \<le> p \<and> p < length h')"

section \<open>Shapes\<close>

lemma is_array_nth: "is_array r c a \<Longrightarrow> i < r \<Longrightarrow> length (a ! i) = c"
  by (simp add: is_array_def list_all_length)

lemma is_array_length: "is_array r c a \<Longrightarrow> length a = r"
  by (simp add: is_array_def)

lemma shape1_is_array: "is_array r c a \<Longrightarrow> 0 < r \<Longrightarrow> shape1 a = c"
  by (cases a) (auto simp: is_array_def shape1_def)

lemma shape1_square: "is_array N N a \<Longrightarrow> shape1 a = N"
  by (cases a) (auto simp: is_array_def shape1_def)

lemma is_array_update:
  assumes "is_array r c a" and "length row = c"
  shows "is_array r c (a[i := row])"
proof -
  have "length (a[i := row] ! n) = c" if "n < length a" for n
  proof (cases "i = n")
    case True
    then show ?thesis using that assms by simp
  next
    case False
    then show ?thesis using that assms by (simp add: is_array_def list_all_length)
  qed
  then show ?thesis
    using assms by (simp add: is_array_def list_all_length)
qed

lemma is_array_grid: "is_array M M (map (\<lambda>i. map (f i) [0..<M]) [0..<M])"
  by (simp add: is_array_def list_all_iff)

lemma setitem_within:
  assumes "is_array r c a" and "i < r" and "j < c"
  shows "setitem a i j v = Inr (a[i := (a ! i)[j := v]])"
  using assms by (simp add: setitem_def shape0_def is_array_length shape1_is_array)

lemma length_setitem: "setitem a i j v = Inr a' \<Longrightarrow> length a' = length a"
  by (auto simp: setitem_def split: if_splits)

section \<open>The nested iteration\<close>

lemma length_loop_j: "loop_j cell i js outp = Inr res \<Longrightarrow> length res = length outp"
proof (induction js arbitrary: outp)
  case Nil
  then show ?case by simp
next
  case (Cons j js)
  then show ?case
    by (auto split: sum.splits dest!: length_setitem)
qed

lemma length_loop_i: "loop_i cell is js outp = Inr res \<Longrightarrow> length res = length outp"
proof (induction "is" arbitrary: outp)
  case Nil
  then show ?case by simp
next
  case (Cons i "is")
  then show ?case
    by (auto split: sum.splits dest: length_loop_j)
qed

lemma fold_update_length: "length (fold (\<lambda>j row. row[j := g j]) js row) = length row"
  by (induction js arbitrary: row) auto

lemma fold_update_nth:
  "c < length row \<Longrightarrow>
     fold (\<lambda>j row. row[j := g j]) js row ! c = (if c \<in> set js then g c else row ! c)"
  by (induction js arbitrary: row) (auto simp: fold_update_length nth_list_update)

lemma fold_update_upt:
  assumes "length row = M"
  shows "fold (\<lambda>j row. row[j := g j]) [0..<M] row = map g [0..<M]"
  using assms by (intro nth_equalityI) (auto simp: fold_update_length fold_update_nth)

lemma loop_j_fold:
  assumes "\<forall>j\<in>set js. cell j = Inr (g j)" and "is_array R C outp" and "i < R"
    and "\<forall>j\<in>set js. j < C"
  shows "loop_j cell i js outp = Inr (outp[i := fold (\<lambda>j row. row[j := g j]) js (outp ! i)])"
  using assms
proof (induction js arbitrary: outp)
  case Nil
  then show ?case by simp
next
  case (Cons j js)
  let ?o = "outp[i := (outp ! i)[j := g j]]"
  have len: "i < length outp"
    using Cons.prems by (simp add: is_array_length)
  have st: "setitem outp i j (g j) = Inr ?o"
    using Cons.prems by (intro setitem_within [of R C]) auto
  have arr: "is_array R C ?o"
    using Cons.prems by (intro is_array_update) (simp_all add: is_array_nth)
  have "loop_j cell i (j # js) outp = loop_j cell i js ?o"
    using Cons.prems st by simp
  also have "\<dots> = Inr (?o[i := fold (\<lambda>j row. row[j := g j]) js (?o ! i)])"
    using Cons.prems arr by (intro Cons.IH) auto
  finally show ?case
    using len by simp
qed

lemma loop_i_fold:
  assumes "\<forall>i\<in>set is. \<forall>j\<in>set js. cell i j = Inr (g i j)" and "is_array R C outp"
    and "\<forall>i\<in>set is. i < R" and "\<forall>j\<in>set js. j < C"
  shows "loop_i cell is js outp =
           Inr (fold (\<lambda>i res. res[i := fold (\<lambda>j row. row[j := g i j]) js (res ! i)]) is outp)"
  using assms
proof (induction "is" arbitrary: outp)
  case Nil
  then show ?case by simp
next
  case (Cons i "is")
  let ?o = "outp[i := fold (\<lambda>j row. row[j := g i j]) js (outp ! i)]"
  have "loop_j (cell i) i js outp = Inr ?o"
    using Cons.prems by (intro loop_j_fold [of js _ _ R C]) auto
  moreover have "is_array R C ?o"
    using Cons.prems by (intro is_array_update) (simp_all add: fold_update_length is_array_nth)
  ultimately show ?case
    using Cons.prems by (simp add: Cons.IH)
qed

lemma fold_rows_length:
  "length (fold (\<lambda>i res. res[i := f i (res ! i)]) is outp) = length outp"
  by (induction "is" arbitrary: outp) auto

lemma fold_rows_nth:
  "r < length outp \<Longrightarrow> distinct is \<Longrightarrow>
     fold (\<lambda>i res. res[i := f i (res ! i)]) is outp ! r
       = (if r \<in> set is then f r (outp ! r) else outp ! r)"
proof (induction "is" arbitrary: outp)
  case Nil
  then show ?case by simp
next
  case (Cons a "is")
  let ?o = "outp[a := f a (outp ! a)]"
  have len: "r < length ?o" using Cons.prems by simp
  have "fold (\<lambda>i res. res[i := f i (res ! i)]) (a # is) outp ! r
          = (if r \<in> set is then f r (?o ! r) else ?o ! r)"
    using Cons.IH [OF len] Cons.prems by simp
  also have "\<dots> = (if r \<in> set (a # is) then f r (outp ! r) else outp ! r)"
    using Cons.prems by (cases "r = a") auto
  finally show ?case .
qed

lemma loop_i_filled:
  assumes "\<forall>i<M. \<forall>j<M. cell i j = Inr (g i j)"
  shows "loop_i cell [0..<M] [0..<M] (replicate M (replicate M 0))
           = Inr (map (\<lambda>i. map (g i) [0..<M]) [0..<M])"
proof -
  let ?f = "\<lambda>i row. fold (\<lambda>j row. row[j := g i j]) [0..<M] row"
  let ?z = "replicate M (replicate M (0::int))"
  have z: "is_array M M ?z"
    by (simp add: is_array_def list_all_iff)
  have "loop_i cell [0..<M] [0..<M] ?z
          = Inr (fold (\<lambda>i res. res[i := ?f i (res ! i)]) [0..<M] ?z)"
    using assms z by (intro loop_i_fold [of _ _ _ _ M M]) auto
  moreover have "fold (\<lambda>i res. res[i := ?f i (res ! i)]) [0..<M] ?z
          = map (\<lambda>i. map (g i) [0..<M]) [0..<M]"
  proof (rule nth_equalityI)
    show "length (fold (\<lambda>i res. res[i := ?f i (res ! i)]) [0..<M] ?z)
            = length (map (\<lambda>i. map (g i) [0..<M]) [0..<M])"
      using fold_rows_length [of ?f "[0..<M]" ?z] by simp
  next
    fix r
    assume "r < length (fold (\<lambda>i res. res[i := ?f i (res ! i)]) [0..<M] ?z)"
    then have r: "r < M"
      using fold_rows_length [of ?f "[0..<M]" ?z] by simp
    then show "fold (\<lambda>i res. res[i := ?f i (res ! i)]) [0..<M] ?z ! r
            = map (\<lambda>i. map (g i) [0..<M]) [0..<M] ! r"
      using fold_rows_nth [of r ?z "[0..<M]" ?f] by (simp add: fold_update_upt)
  qed
  ultimately show ?thesis by simp
qed

section \<open>Windows, products and sums\<close>

lemma stretch_same: "length xs = n \<Longrightarrow> stretch n xs = xs"
  by (cases xs rule: list.exhaust; cases "tl xs") (auto simp: stretch_def split: list.splits)

lemma py_slice_window:
  "a + k \<le> length xs \<Longrightarrow> py_slice (int a) (int a + int k) xs = take k (drop a xs)"
  by (simp add: py_slice_def slice_index_def Let_def nat_add_distrib)

lemma slice2d_window:
  assumes "is_array N C a" and "i + k \<le> N" and "j + k \<le> C"
  shows "slice2d a (int i) (int i + int k) (int j) (int j + int k)
           = map (\<lambda>m. map (\<lambda>n. a ! (i + m) ! (j + n)) [0..<k]) [0..<k]"
proof -
  have rows: "py_slice (int i) (int i + int k) a = take k (drop i a)"
    using assms by (simp add: py_slice_window is_array_length)
  have "map (py_slice (int j) (int j + int k)) (take k (drop i a))
          = map (\<lambda>m. map (\<lambda>n. a ! (i + m) ! (j + n)) [0..<k]) [0..<k]"
  proof (rule nth_equalityI)
    show "length (map (py_slice (int j) (int j + int k)) (take k (drop i a)))
            = length (map (\<lambda>m. map (\<lambda>n. a ! (i + m) ! (j + n)) [0..<k]) [0..<k])"
      using assms by (simp add: is_array_length)
  next
    fix m
    assume "m < length (map (py_slice (int j) (int j + int k)) (take k (drop i a)))"
    then have m: "m < k" by simp
    then have len: "length (a ! (i + m)) = C"
      using assms by (intro is_array_nth [of N C a]) auto
    have "py_slice (int j) (int j + int k) (a ! (i + m)) = take k (drop j (a ! (i + m)))"
      using assms len by (simp add: py_slice_window)
    also have "\<dots> = map (\<lambda>n. a ! (i + m) ! (j + n)) [0..<k]"
      using assms len by (intro nth_equalityI) auto
    finally show "map (py_slice (int j) (int j + int k)) (take k (drop i a)) ! m
            = map (\<lambda>m. map (\<lambda>n. a ! (i + m) ! (j + n)) [0..<k]) [0..<k] ! m"
      using m assms by (simp add: is_array_length)
  qed
  then show ?thesis by (simp add: slice2d_def rows)
qed

lemma map2_nth:
  "length xs = k \<Longrightarrow> length ys = k \<Longrightarrow> map2 f xs ys = map (\<lambda>m. f (xs ! m) (ys ! m)) [0..<k]"
  by (intro nth_equalityI) auto

lemma sum_list_concat_map:
  "sum_list (concat (map h ms)) = (\<Sum>m\<leftarrow>ms. sum_list (h m))"
  by (induction ms) auto

lemma word_of_int_sum_list:
  "(word_of_int (\<Sum>x\<leftarrow>xs. f x) :: 'a::len word) = (\<Sum>x\<leftarrow>xs. word_of_int (f x))"
  by (induction xs) auto

lemma broadcast2_same_shape:
  assumes "is_array k k x" and "is_array k k y"
  shows "broadcast2 f x y = Inr (map (\<lambda>m. map (\<lambda>n. f (x ! m ! n) (y ! m ! n)) [0..<k]) [0..<k])"
proof -
  have s0: "shape0 x = k" "shape0 y = k"
    using assms by (simp_all add: shape0_def is_array_length)
  have s1: "shape1 x = shape1 y"
  proof (cases "k = 0")
    case True
    then show ?thesis using assms by (simp add: is_array_def shape1_def)
  next
    case False
    then show ?thesis using assms by (simp add: shape1_is_array)
  qed
  have rows: "\<And>m. m < k \<Longrightarrow> length (x ! m) = shape1 y \<and> length (y ! m) = shape1 y"
    using assms by (auto simp: is_array_nth shape1_is_array)
  have c: "shape1 y = k \<or> k = 0"
    using assms by (auto simp: shape1_is_array)
  have "map2 (\<lambda>xr yr. map2 f (stretch (shape1 y) xr) (stretch (shape1 y) yr)) x y
          = map (\<lambda>m. map (\<lambda>n. f (x ! m ! n) (y ! m ! n)) [0..<k]) [0..<k]"
  proof -
    have "map2 (\<lambda>xr yr. map2 f (stretch (shape1 y) xr) (stretch (shape1 y) yr)) x y
            = map (\<lambda>m. map2 f (stretch (shape1 y) (x ! m)) (stretch (shape1 y) (y ! m))) [0..<k]"
      using assms by (intro map2_nth) (simp_all add: is_array_length)
    also have "\<dots> = map (\<lambda>m. map (\<lambda>n. f (x ! m ! n) (y ! m ! n)) [0..<k]) [0..<k]"
    proof (rule map_cong [OF refl])
      fix m assume "m \<in> set [0..<k]"
      then have m: "m < k" by simp
      then have k: "shape1 y = k" using c by simp
      show "map2 f (stretch (shape1 y) (x ! m)) (stretch (shape1 y) (y ! m))
              = map (\<lambda>n. f (x ! m ! n) (y ! m ! n)) [0..<k]"
        using rows [OF m] k by (simp add: stretch_same map2_nth)
    qed
    finally show ?thesis .
  qed
  then show ?thesis
    using assms by (simp add: broadcast2_def s0 s1 broadcast_dim_def stretch_same is_array_length)
qed

lemma window_sum_eq:
  assumes "is_array N C a" and "is_array k k kern" and "i + k \<le> N" and "j + k \<le> C"
  shows "window_sum a kern (int k) i j
           = Inr (float64_of_int (wrap_int64 (weighted_sum a kern k i j)))"
proof -
  let ?w = "map (\<lambda>m. map (\<lambda>n. a ! (i + m) ! (j + n)) [0..<k]) [0..<k]"
  have w: "is_array k k ?w"
    by (simp add: is_array_def list_all_iff)
  have "np_multiply ?w kern
          = Inr (map (\<lambda>m. map (\<lambda>n. a ! (i + m) ! (j + n) * kern ! m ! n) [0..<k]) [0..<k])"
    using broadcast2_same_shape [OF w assms(2), of "(*)"] by (simp add: np_multiply_def cong: map_cong)
  moreover have "np_sum (map (\<lambda>m. map (\<lambda>n. a ! (i + m) ! (j + n) * kern ! m ! n) [0..<k]) [0..<k])
          = word_of_int (weighted_sum a kern k i j)"
    by (simp add: np_sum_def sum_list_concat_map weighted_sum_def word_of_int_sum_list)
  ultimately show ?thesis
    using slice2d_window [OF assms(1,3,4)]
    by (simp add: window_sum_def slice_at_def sum_window_def float64_of_int64_def
        wrap_int64_def sint_sbintrunc')
qed

lemma bit_length_le: "a < 2 ^ n \<Longrightarrow> bit_length a \<le> n"
proof (induction n arbitrary: a)
  case 0
  then show ?case by (simp add: bit_length.simps)
next
  case (Suc n)
  then have "a div 2 < 2 ^ n" by auto
  then have "bit_length (a div 2) \<le> n" by (rule Suc.IH)
  then show ?case by (subst bit_length.simps) simp
qed

lemma bit_length_power: "bit_length (2 ^ n) = Suc n"
  by (induction n) (simp_all add: bit_length.simps)

lemma round_even_multiple: "2 ^ e dvd a \<Longrightarrow> round_even a e = a"
  by (auto simp: round_even_def Let_def mod_eq_0_iff_dvd)

lemma float64_of_int_exact:
  assumes "\<bar>x\<bar> \<le> 2 ^ 53"
  shows "float64_of_int x = x"
proof -
  have "round_even \<bar>x\<bar> (bit_length \<bar>x\<bar> - 53) = \<bar>x\<bar>"
  proof (cases "\<bar>x\<bar> = 2 ^ 53")
    case True
    have "bit_length ((2::int) ^ 53) - 53 = 1"
      by (simp only: bit_length_power)
    moreover have "round_even (2 ^ 53) 1 = 2 ^ 53"
      by (rule round_even_multiple) simp
    ultimately show ?thesis
      by (simp only: True)
  next
    case False
    with assms have "\<bar>x\<bar> < 2 ^ 53" by simp
    then have "bit_length \<bar>x\<bar> - 53 = 0" using bit_length_le [of "\<bar>x\<bar>" 53] by simp
    then show ?thesis by (simp add: round_even_multiple)
  qed
  then show ?thesis
    by (simp add: float64_of_int_def mult_sgn_abs)
qed

text \<open>Beyond 53 bits the conversion rounds to the nearest double, a tie to the even one.\<close>

lemma float64_of_int_rounds:
  "float64_of_int (2 ^ 53 + 1) = 2 ^ 53"
  "float64_of_int (2 ^ 53 + 2) = 2 ^ 53 + 2"
  "float64_of_int (2 ^ 53 + 3) = 2 ^ 53 + 4"
  "float64_of_int (- (2 ^ 53 + 1)) = - (2 ^ 53)"
  "float64_of_int (2 ^ 63 - 1) = 2 ^ 63"
  "float64_of_int (2 ^ 54 + 5) = 2 ^ 54 + 4"
  "float64_of_int (2 ^ 54 + 6) = 2 ^ 54 + 8"
  by code_simp+

lemma wrap_int64_exact: "\<bar>x\<bar> \<le> 2 ^ 53 \<Longrightarrow> wrap_int64 x = x"
  unfolding wrap_int64_def by (intro signed_take_bit_int_eq_self) auto

lemma wrap_int64_in_range: "\<bar>x\<bar> \<le> 2 ^ 54 \<Longrightarrow> wrap_int64 x = x"
  unfolding wrap_int64_def by (intro signed_take_bit_int_eq_self) auto

lemma np_zeros_nat: "np_zeros (int M) = Inr (replicate M (replicate M 0))"
  by (simp add: np_zeros_def)

lemma convolution2d_closed_form:
  assumes "is_array N N img" and "is_array k k kern" and "k \<le> N" and "M = N - k + 1"
  shows "convolution2d img kern
           = Inr (map (\<lambda>i. map (\<lambda>j. float64_of_int (wrap_int64 (weighted_sum img kern k i j)))
                    [0..<M]) [0..<M])"
proof -
  have size: "int (shape0 img) - int (shape0 kern) + 1 = int M"
    using assms by (simp add: shape0_def is_array_length)
  have cells: "\<forall>i<M. \<forall>j<M. window_sum img kern (int k) i j
                 = Inr (float64_of_int (wrap_int64 (weighted_sum img kern k i j)))"
    using assms by (auto intro!: window_sum_eq [of N N])
  have "convolution2d img kern
          = loop_i (window_sum img kern (int k)) [0..<M] [0..<M] (replicate M (replicate M 0))"
    using assms(2) by (simp add: convolution2d_def Let_def size np_zeros_nat)
      (simp add: shape0_def is_array_length)
  then show ?thesis
    using loop_i_filled [OF cells] by simp
qed

section \<open>Windows and maxima\<close>

lemma sint_smax: "sint (smax a b) = max (sint a) (sint b)"
  by (simp add: smax_def word_sless_alt max_def)

lemma sint_fold_smax: "sint (fold smax xs x) = fold max (map sint xs) (sint x)"
  by (induction xs arbitrary: x) (simp_all add: sint_smax)

lemma np_max_eq:
  assumes "concat a \<noteq> []"
  shows "\<exists>v. np_max a = Inr v \<and> sint v = Max (set (map sint (concat a)))"
proof -
  from assms obtain x xs where c: "concat a = x # xs"
    by (cases "concat a") auto
  have "sint (fold smax xs x) = Max (set (sint x # map sint xs))"
    by (simp only: sint_fold_smax Max.set_eq_fold)
  then show ?thesis
    by (simp add: np_max_def c)
qed

lemma map_upt_shift: "map f [a..<a + k] = map (\<lambda>m. f (a + m)) [0..<k]"
  by (intro nth_equalityI) auto

lemma window_max_eq:
  assumes "is_array N C img" and "i * s + p \<le> N" and "j * s + p \<le> C" and "0 < p"
  shows "window_max img (int p) (int s) i j = Inr (float64_of_int (window_maximum img p s i j))"
proof -
  let ?w = "map (\<lambda>m. map (\<lambda>n. img ! (i * s + m) ! (j * s + n)) [0..<p]) [0..<p]"
  have sl: "slice2d img (int i * int s) (int i * int s + int p) (int j * int s) (int j * int s + int p) = ?w"
    using slice2d_window [OF assms(1-3)] by simp
  have ne: "concat ?w \<noteq> []"
  proof -
    have "[0..<p] = 0 # [Suc 0..<p]"
      using assms(4) by (rule upt_conv_Cons)
    then show ?thesis by simp
  qed
  from np_max_eq [OF ne] obtain v where
    v: "np_max ?w = Inr v" "sint v = Max (set (map sint (concat ?w)))" by blast
  have "map sint (concat ?w)
          = concat (map (\<lambda>r. map (\<lambda>c. sint (img ! r ! c)) [j * s..<j * s + p]) [i * s..<i * s + p])"
    by (simp add: map_concat map_upt_shift o_def)
  then have "sint v = window_maximum img p s i j"
    using v(2) by (simp add: window_maximum_def)
  then show ?thesis
    by (simp add: window_max_def slice_at_def max_window_def sl v(1) float64_of_int64_def)
qed

lemma pool_index_bound:
  assumes "i < (N - p) div s + 1" and "p \<le> N"
  shows "i * s + p \<le> (N::nat)"
proof -
  have "i * s \<le> (N - p) div s * s"
    using assms(1) by (intro mult_le_mono1) simp
  also have "\<dots> \<le> N - p" by simp
  finally show ?thesis using assms(2) by simp
qed

lemma max_pooling2d_closed_form:
  assumes "is_array N N img" and "0 < p" and "p \<le> N" and "0 < s" and "M = (N - p) div s + 1"
  shows "max_pooling2d img (int p) (int s)
           = Inr (map (\<lambda>i. map (\<lambda>j. float64_of_int (window_maximum img p s i j)) [0..<M]) [0..<M])"
proof -
  have "int ((N - p) div s) = (int N - int p) div int s"
    using assms(3) by (simp add: zdiv_int of_nat_diff)
  then have size: "(int (shape0 img) - int p) div int s + 1 = int M"
    using assms(1,5) by (simp add: shape0_def is_array_length)
  have cells: "\<forall>i<M. \<forall>j<M. window_max img (int p) (int s) i j
                 = Inr (float64_of_int (window_maximum img p s i j))"
  proof (intro allI impI)
    fix i j assume "i < M" and "j < M"
    then have "i * s + p \<le> N" and "j * s + p \<le> N"
      using assms(3,5) by (simp_all add: pool_index_bound)
    then show "window_max img (int p) (int s) i j
                 = Inr (float64_of_int (window_maximum img p s i j))"
      using assms(1,2) by (intro window_max_eq [of N N])
  qed
  have "max_pooling2d img (int p) (int s)
          = loop_i (window_max img (int p) (int s)) [0..<M] [0..<M] (replicate M (replicate M 0))"
    using assms(4) by (simp add: max_pooling2d_def Let_def size np_zeros_nat)
  then show ?thesis
    using loop_i_filled [OF cells] by simp
qed

section \<open>Zero padding\<close>

lemma is_array_zero_padded: "is_array (N + 2 * p) (N + 2 * p) (zero_padded N img p)"
  by (simp add: zero_padded_def is_array_def list_all_iff)

lemma np_pad_eq:
  assumes "is_array N N img"
  shows "np_pad img (int p) = Inr (zero_padded N img p)"
proof -
  let ?border = "replicate p (replicate (N + 2 * p) (0::int64))"
  let ?mid = "map (\<lambda>row. replicate p 0 @ row @ replicate p 0) img"
  have len: "length img = N" using assms by (rule is_array_length)
  have "?border @ ?mid @ ?border = zero_padded N img p"
  proof (rule nth_equalityI)
    show "length (?border @ ?mid @ ?border) = length (zero_padded N img p)"
      by (simp add: zero_padded_def len)
  next
    fix r
    assume "r < length (?border @ ?mid @ ?border)"
    then have r: "r < N + 2 * p" by (simp add: len)
    consider "r < p" | "p \<le> r" "r < p + N" | "p + N \<le> r"
      by linarith
    then show "(?border @ ?mid @ ?border) ! r = zero_padded N img p ! r"
    proof cases
      case 1
      then have "(?border @ ?mid @ ?border) ! r = replicate (N + 2 * p) 0"
        by (simp add: nth_append)
      also have "\<dots> = zero_padded N img p ! r"
        using 1 r by (intro nth_equalityI) (simp_all add: zero_padded_def)
      finally show ?thesis .
    next
      case 2
      then have row: "length (img ! (r - p)) = N"
        using assms by (intro is_array_nth [of N N]) auto
      have "r - p < N" using 2 by linarith
      then have "(?border @ ?mid @ ?border) ! r = replicate p 0 @ img ! (r - p) @ replicate p 0"
        using 2 by (simp add: nth_append len)
      also have "\<dots> = zero_padded N img p ! r"
      proof (rule nth_equalityI)
        show "length (replicate p 0 @ img ! (r - p) @ replicate p 0)
                = length (zero_padded N img p ! r)"
          using r by (simp add: zero_padded_def row)
      next
        fix c
        assume "c < length (replicate p 0 @ img ! (r - p) @ replicate p 0)"
        then have c: "c < N + 2 * p" by (simp add: row)
        then show "(replicate p 0 @ img ! (r - p) @ replicate p 0) ! c
                     = zero_padded N img p ! r ! c"
          using 2 r by (auto simp: zero_padded_def nth_append row)
      qed
      finally show ?thesis .
    next
      case 3
      then have "\<not> r - p < N" and "r - p - N < p"
        using r by linarith+
      then have "(?border @ ?mid @ ?border) ! r = replicate (N + 2 * p) 0"
        using 3 r by (simp add: nth_append len)
      also have "\<dots> = zero_padded N img p ! r"
        using 3 r by (intro nth_equalityI) (simp_all add: zero_padded_def)
      finally show ?thesis .
    qed
  qed
  then show ?thesis
    using assms by (simp add: np_pad_def Let_def shape1_square)
qed

lemma convolution2d_with_padding_loop:
  assumes "is_array N N img" and "is_array k k kern"
  shows "convolution2d_with_padding img kern (int p)
           = loop_i (window_sum (zero_padded N img p) kern (int k)) [0..<N] [0..<N]
               (replicate N (replicate N 0))"
  using assms
  by (simp add: convolution2d_with_padding_def np_pad_eq [of N] Let_def shape0_def
      is_array_length np_zeros_nat)

lemma convolution2d_with_padding_closed_form:
  assumes "is_array N N img" and "is_array k k kern" and "k \<le> 2 * p + 1"
  shows "convolution2d_with_padding img kern (int p)
           = Inr (map (\<lambda>i. map (\<lambda>j. float64_of_int
                      (wrap_int64 (weighted_sum (zero_padded N img p) kern k i j)))
                    [0..<N]) [0..<N])"
proof -
  have cells: "\<forall>i<N. \<forall>j<N. window_sum (zero_padded N img p) kern (int k) i j
                 = Inr (float64_of_int (wrap_int64 (weighted_sum (zero_padded N img p) kern k i j)))"
    using assms
    by (auto intro!: window_sum_eq [of "N + 2 * p" "N + 2 * p"] is_array_zero_padded)
  show ?thesis
    using loop_i_filled [OF cells] assms by (simp add: convolution2d_with_padding_loop)
qed

lemma length_np_zeros: "np_zeros n = Inr z \<Longrightarrow> length z = nat n"
  by (auto simp: np_zeros_def split: if_splits)

lemma length_convolution2d_with_padding:
  "convolution2d_with_padding img kern padding = Inr res \<Longrightarrow> length res = length img"
  by (auto simp: convolution2d_with_padding_def Let_def shape0_def
      split: sum.splits dest!: length_loop_i length_np_zeros)

section \<open>Sums over two kernels\<close>

lemma word_of_weighted_sum:
  "(word_of_int (weighted_sum img kern k i j) :: int64)
     = (\<Sum>m\<leftarrow>[0..<k]. \<Sum>n\<leftarrow>[0..<k]. img ! (i + m) ! (j + n) * kern ! m ! n)"
  by (simp add: weighted_sum_def word_of_int_sum_list)

lemma wrap_int64_word: "wrap_int64 x = sint (word_of_int x :: int64)"
  by (simp add: wrap_int64_def sint_sbintrunc')

lemma weighted_sum_add_kernel:
  "wrap_int64 (weighted_sum img
       (map (\<lambda>m. map (\<lambda>n. K1 ! m ! n + K2 ! m ! n) [0..<k]) [0..<k]) k i j)
     = wrap_int64 (weighted_sum img K1 k i j + weighted_sum img K2 k i j)"
proof -
  let ?K = "map (\<lambda>m. map (\<lambda>n. K1 ! m ! n + K2 ! m ! n) [0..<k]) [0..<k]"
  have "(\<Sum>m\<leftarrow>[0..<k]. \<Sum>n\<leftarrow>[0..<k]. img ! (i + m) ! (j + n) * ?K ! m ! n)
          = (\<Sum>m\<leftarrow>[0..<k]. \<Sum>n\<leftarrow>[0..<k].
               img ! (i + m) ! (j + n) * K1 ! m ! n + img ! (i + m) ! (j + n) * K2 ! m ! n)"
    by (intro arg_cong [where f = sum_list] map_cong refl) (simp add: distrib_left)
  also have "\<dots> = (\<Sum>m\<leftarrow>[0..<k]. \<Sum>n\<leftarrow>[0..<k]. img ! (i + m) ! (j + n) * K1 ! m ! n)
                   + (\<Sum>m\<leftarrow>[0..<k]. \<Sum>n\<leftarrow>[0..<k]. img ! (i + m) ! (j + n) * K2 ! m ! n)"
    by (simp add: sum_list_addf)
  finally have "(word_of_int (weighted_sum img ?K k i j) :: int64)
                  = word_of_int (weighted_sum img K1 k i j + weighted_sum img K2 k i j)"
    by (simp add: word_of_weighted_sum)
  then show ?thesis
    by (simp only: wrap_int64_word)
qed

section \<open>Runs on the heap and runs on values\<close>

lemma store_item_output:
  "store_item (H @ [Float64Array cur]) (length H) i j v
     = Some (case setitem cur i j v of
               Inl e \<Rightarrow> Inl e
             | Inr cur' \<Rightarrow> Inr (H @ [Float64Array cur']))"
  by (simp add: store_item_def split: sum.splits)

lemma loop_j_heap_refines:
  assumes "\<And>cur j. cell (H @ [Float64Array cur]) j = Some (g j)"
  shows "\<exists>cur'. loop_j_heap cell (length H) i js (H @ [Float64Array cur])
                  = Some (case loop_j g i js cur of Inl e \<Rightarrow> Inl e | Inr r \<Rightarrow> Inr (),
                          H @ [Float64Array cur']) \<and>
                (\<forall>r. loop_j g i js cur = Inr r \<longrightarrow> cur' = r)"
proof (induction js arbitrary: cur)
  case Nil
  then show ?case by simp
next
  case (Cons j js)
  show ?case
  proof (cases "g j")
    case (Inl e)
    then show ?thesis by (simp add: assms)
  next
    case v: (Inr v)
    show ?thesis
    proof (cases "setitem cur i j v")
      case (Inl e)
      then show ?thesis by (simp add: assms v store_item_output)
    next
      case (Inr cur2)
      from Cons.IH [of cur2] show ?thesis
        by (simp add: assms v Inr store_item_output)
    qed
  qed
qed

lemma loop_i_heap_refines:
  assumes "\<And>cur i j. cell (H @ [Float64Array cur]) i j = Some (g i j)"
  shows "\<exists>cur'. loop_i_heap cell (length H) is js (H @ [Float64Array cur])
                  = Some (case loop_i g is js cur of Inl e \<Rightarrow> Inl e | Inr r \<Rightarrow> Inr (),
                          H @ [Float64Array cur']) \<and>
                (\<forall>r. loop_i g is js cur = Inr r \<longrightarrow> cur' = r)"
proof (induction "is" arbitrary: cur)
  case Nil
  then show ?case by simp
next
  case (Cons i "is")
  have "\<And>cur j. cell (H @ [Float64Array cur]) i j = Some (g i j)"
    by (rule assms)
  from loop_j_heap_refines [of "\<lambda>h'. cell h' i" H "g i", OF this, of i js cur]
  obtain cur1 where
    j: "loop_j_heap (\<lambda>h'. cell h' i) (length H) i js (H @ [Float64Array cur])
          = Some (case loop_j (g i) i js cur of Inl e \<Rightarrow> Inl e | Inr r \<Rightarrow> Inr (),
                  H @ [Float64Array cur1])"
      "\<forall>r. loop_j (g i) i js cur = Inr r \<longrightarrow> cur1 = r"
    by blast
  show ?case
  proof (cases "loop_j (g i) i js cur")
    case (Inl e)
    then show ?thesis using j by simp
  next
    case (Inr r)
    then have "cur1 = r" using j(2) by simp
    then show ?thesis
      using Cons.IH [of r] j(1) Inr by simp
  qed
qed

lemma fill_refines:
  assumes "\<And>cur i j. cell (H @ [Float64Array cur]) i j = Some (g i j)"
  shows "\<exists>cur'. fill cell (length H) n (H @ [Float64Array cur])
                  = Some (case loop_i g [0..<nat n] [0..<nat n] cur of
                            Inl e \<Rightarrow> Inl e | Inr r \<Rightarrow> Inr (length H),
                          H @ [Float64Array cur']) \<and>
                (\<forall>r. loop_i g [0..<nat n] [0..<nat n] cur = Inr r \<longrightarrow> cur' = r)"
proof -
  from loop_i_heap_refines [of cell H g, OF assms, of "[0..<nat n]" "[0..<nat n]" cur]
  obtain cur' where
    "loop_i_heap cell (length H) [0..<nat n] [0..<nat n] (H @ [Float64Array cur])
       = Some (case loop_i g [0..<nat n] [0..<nat n] cur of Inl e \<Rightarrow> Inl e | Inr r \<Rightarrow> Inr (),
               H @ [Float64Array cur'])"
    "\<forall>r. loop_i g [0..<nat n] [0..<nat n] cur = Inr r \<longrightarrow> cur' = r"
    by blast
  then show ?thesis
    by (cases "loop_i g [0..<nat n] [0..<nat n] cur") (auto simp: fill_def)
qed

lemma load_int64_append: "load_int64 h p = Some a \<Longrightarrow> load_int64 (h @ new) p = Some a"
  by (auto simp: load_int64_def nth_append split: if_splits)

lemma load_int64_fresh: "load_int64 (h @ [Int64Array a]) (length h) = Some a"
  by (simp add: load_int64_def)

lemma allocate_fill_refines:
  assumes "\<And>cur i j. cell (H @ [Float64Array cur]) i j = Some (g i j)"
    and "take (length h) H = h"
  shows "\<exists>res h'. fill cell (length H) n (H @ [Float64Array zeros]) = Some (res, h') \<and>
           writes_only_fresh h h' res \<and>
           result_of (Some (res, h'))
             = Some (result_of_value (loop_i g [0..<nat n] [0..<nat n] zeros))"
proof -
  from fill_refines [of cell H g, OF assms(1), of n zeros] obtain cur' where
    f: "fill cell (length H) n (H @ [Float64Array zeros])
          = Some (case loop_i g [0..<nat n] [0..<nat n] zeros of
                    Inl e \<Rightarrow> Inl e | Inr r \<Rightarrow> Inr (length H),
                  H @ [Float64Array cur'])"
      "\<forall>r. loop_i g [0..<nat n] [0..<nat n] zeros = Inr r \<longrightarrow> cur' = r"
    by blast
  have len: "length h \<le> length H"
    using assms(2) by (metis length_take min.cobounded1)
  have pre: "take (length h) (H @ [Float64Array cur']) = h"
    using assms(2) len by simp
  show ?thesis
  proof (cases "loop_i g [0..<nat n] [0..<nat n] zeros")
    case (Inl e)
    then show ?thesis
      using f pre by (simp add: writes_only_fresh_def result_of_def result_of_value_def)
  next
    case (Inr r)
    then have "cur' = r" using f(2) by simp
    then show ?thesis
      using f(1) pre len Inr
      by (simp add: writes_only_fresh_def result_of_def result_of_value_def)
  qed
qed

lemma convolution2d_heap_refines:
  assumes "load_int64 h img = Some a" and "load_int64 h kern = Some k"
  shows "\<exists>res h'. convolution2d_heap h img kern = Some (res, h') \<and>
           writes_only_fresh h h' res \<and>
           result_of (Some (res, h')) = Some (result_of_value (convolution2d a k))"
proof (cases "np_zeros (int (shape0 a) - int (shape0 k) + 1)")
  case (Inl e)
  then show ?thesis
    using assms
    by (simp add: convolution2d_heap_def convolution2d_def Let_def writes_only_fresh_def
        result_of_def result_of_value_def)
next
  case (Inr zeros)
  have cell: "\<And>cur i j. window_sum_heap img kern (int (shape0 k)) (h @ [Float64Array cur]) i j
                = Some (window_sum a k (int (shape0 k)) i j)"
    using assms by (simp add: window_sum_heap_def load_int64_append)
  from allocate_fill_refines [where cell = "window_sum_heap img kern (int (shape0 k))"
      and H = h and g = "window_sum a k (int (shape0 k))" and h = h
      and n = "int (shape0 a) - int (shape0 k) + 1" and zeros = zeros, OF cell]
  show ?thesis
    using assms Inr
    by (simp add: convolution2d_heap_def convolution2d_def Let_def allocate_def)
qed

lemma writes_only_fresh_extend:
  assumes "writes_only_fresh (h @ [x]) h' res"
  shows "writes_only_fresh h h' res"
proof -
  have t: "take (Suc (length h)) h' = h @ [x]"
    using assms by (simp add: writes_only_fresh_def)
  have "take (length h) h' = take (length h) (take (Suc (length h)) h')"
    by (simp add: min_def)
  also have "\<dots> = h"
    by (simp only: t) simp
  finally have "take (length h) h' = h" .
  then show ?thesis
    using assms by (auto simp: writes_only_fresh_def split: sum.splits)
qed

lemma convolution2d_with_padding_heap_refines:
  assumes "load_int64 h img = Some a" and "load_int64 h kern = Some k"
  shows "\<exists>res h'. convolution2d_with_padding_heap h img kern padding = Some (res, h') \<and>
           writes_only_fresh h h' res \<and>
           result_of (Some (res, h'))
             = Some (result_of_value (convolution2d_with_padding a k padding))"
proof (cases "np_pad a padding")
  case (Inl e)
  then show ?thesis
    using assms
    by (simp add: convolution2d_with_padding_heap_def convolution2d_with_padding_def Let_def
        writes_only_fresh_def result_of_def result_of_value_def)
next
  case pad: (Inr padded)
  let ?h1 = "h @ [Int64Array padded]"
  show ?thesis
  proof (cases "np_zeros (int (shape0 a))")
    case (Inl e)
    then show ?thesis
      using assms pad
      by (simp add: convolution2d_with_padding_heap_def convolution2d_with_padding_def Let_def
          allocate_def writes_only_fresh_def result_of_def result_of_value_def)
  next
    case (Inr zeros)
    have cell: "\<And>cur i j.
        window_sum_heap (length h) kern (int (shape0 k)) (?h1 @ [Float64Array cur]) i j
          = Some (window_sum padded k (int (shape0 k)) i j)"
      using assms(2)
      by (simp add: window_sum_heap_def load_int64_append load_int64_fresh
          del: append_assoc)
    have pre: "take (length h) ?h1 = h" by simp
    from allocate_fill_refines [where cell = "window_sum_heap (length h) kern (int (shape0 k))"
        and H = ?h1 and g = "window_sum padded k (int (shape0 k))" and h = h
        and n = "int (shape0 a)" and zeros = zeros, OF cell pre]
    show ?thesis
      using assms pad Inr
      by (simp add: convolution2d_with_padding_heap_def convolution2d_with_padding_def Let_def
          allocate_def)
  qed
qed

lemma max_pooling2d_heap_refines:
  assumes "load_int64 h img = Some a"
  shows "\<exists>res h'. max_pooling2d_heap h img pool_size stride = Some (res, h') \<and>
           writes_only_fresh h h' res \<and>
           result_of (Some (res, h'))
             = Some (result_of_value (max_pooling2d a pool_size stride))"
proof (cases "stride = 0")
  case True
  then show ?thesis
    using assms
    by (simp add: max_pooling2d_heap_def max_pooling2d_def writes_only_fresh_def
        result_of_def result_of_value_def)
next
  case False
  show ?thesis
  proof (cases "np_zeros ((int (shape0 a) - pool_size) div stride + 1)")
    case (Inl e)
    then show ?thesis
      using assms False
      by (simp add: max_pooling2d_heap_def max_pooling2d_def Let_def writes_only_fresh_def
          result_of_def result_of_value_def)
  next
    case (Inr zeros)
    have cell: "\<And>cur i j. window_max_heap img pool_size stride (h @ [Float64Array cur]) i j
                  = Some (window_max a pool_size stride i j)"
      using assms by (simp add: window_max_heap_def load_int64_append)
    from allocate_fill_refines [where cell = "window_max_heap img pool_size stride"
        and H = h and g = "window_max a pool_size stride" and h = h
        and n = "(int (shape0 a) - pool_size) div stride + 1" and zeros = zeros, OF cell]
    show ?thesis
      using assms False Inr
      by (simp add: max_pooling2d_heap_def max_pooling2d_def Let_def allocate_def)
  qed
qed

lemma writes_only_fresh_load:
  "writes_only_fresh h h' res \<Longrightarrow> load_int64 h p = Some a \<Longrightarrow> load_int64 h' p = Some a"
proof -
  assume w: "writes_only_fresh h h' res" and l: "load_int64 h p = Some a"
  then have "h' = h @ drop (length h) h'"
    by (metis append_take_drop_id writes_only_fresh_def)
  then show ?thesis
    using l load_int64_append by metis
qed

section \<open>The record of accesses\<close>

lemma is_array_setitem:
  assumes "setitem a i j v = Inr a'" and "is_array r c a"
  shows "is_array r c a'"
proof -
  from assms(1) have i: "i < length a" and a': "a' = a[i := (a ! i)[j := v]]"
    by (auto simp: setitem_def shape0_def split: if_splits)
  have "length ((a ! i)[j := v]) = c"
    using i assms(2) by (simp add: is_array_nth is_array_length)
  then show ?thesis
    unfolding a' using assms(2) by (intro is_array_update)
qed

lemma is_array_loop_j:
  "loop_j cell i js outp = Inr res \<Longrightarrow> is_array R C outp \<Longrightarrow> is_array R C res"
proof (induction js arbitrary: outp)
  case Nil
  then show ?case by simp
next
  case (Cons j js)
  then show ?case
    by (auto split: sum.splits dest: is_array_setitem)
qed

lemma loop_j_traced_result:
  "fst (loop_j_traced cell i js outp) = loop_j (\<lambda>j. fst (cell j)) i js outp"
  by (induction js arbitrary: outp) (auto simp: Let_def case_prod_beta split: sum.splits)

lemma loop_i_traced_result:
  "fst (loop_i_traced cell is js outp) = loop_i (\<lambda>i j. fst (cell i j)) is js outp"
  by (induction "is" arbitrary: outp)
    (auto simp: case_prod_beta loop_j_traced_result split: sum.splits)

lemma convolution2d_traced_result:
  "fst (convolution2d_traced img kern) = convolution2d img kern"
  by (simp add: convolution2d_traced_def convolution2d_def Let_def loop_i_traced_result
      window_sum_traced_def split: sum.splits)

lemma convolution2d_with_padding_traced_result:
  "fst (convolution2d_with_padding_traced img kern padding)
     = convolution2d_with_padding img kern padding"
  by (simp add: convolution2d_with_padding_traced_def convolution2d_with_padding_def Let_def
      loop_i_traced_result window_sum_traced_def split: sum.splits)

lemma max_pooling2d_traced_result:
  "fst (max_pooling2d_traced img pool_size stride) = max_pooling2d img pool_size stride"
  by (simp add: max_pooling2d_traced_def max_pooling2d_def Let_def loop_i_traced_result
      window_max_traced_def split: sum.splits)

lemma loop_j_traced_in_bounds:
  assumes "\<forall>j\<in>set js. list_all in_bounds (snd (cell j))" and "is_array R C outp"
    and "i < R" and "\<forall>j\<in>set js. j < C"
  shows "list_all in_bounds (snd (loop_j_traced cell i js outp))"
  using assms
proof (induction js arbitrary: outp)
  case Nil
  then show ?case by simp
next
  case (Cons j js)
  obtain r reads where c: "cell j = (r, reads)" by (cases "cell j")
  have reads: "list_all in_bounds reads"
    using Cons.prems(1) c by simp
  have store: "in_bounds (Store_item (shape0 outp) (shape1 outp) i j)"
    using Cons.prems by (simp add: in_bounds_def shape0_def is_array_length shape1_is_array)
  show ?case
  proof (cases r)
    case (Inl e)
    then show ?thesis using c reads by simp
  next
    case v: (Inr v)
    show ?thesis
    proof (cases "setitem outp i j v")
      case (Inl e)
      then show ?thesis using c v reads store by (simp add: Let_def)
    next
      case (Inr outp')
      then have "is_array R C outp'"
        using Cons.prems(2) by (rule is_array_setitem)
      then have "list_all in_bounds (snd (loop_j_traced cell i js outp'))"
        using Cons.prems by (intro Cons.IH) auto
      then show ?thesis
        using c v Inr reads store by (simp add: Let_def case_prod_beta)
    qed
  qed
qed

lemma loop_i_traced_in_bounds:
  assumes "\<forall>i\<in>set is. \<forall>j\<in>set js. list_all in_bounds (snd (cell i j))"
    and "is_array R C outp" and "\<forall>i\<in>set is. i < R" and "\<forall>j\<in>set js. j < C"
  shows "list_all in_bounds (snd (loop_i_traced cell is js outp))"
  using assms
proof (induction "is" arbitrary: outp)
  case Nil
  then show ?case by simp
next
  case (Cons i "is")
  obtain r accesses where j: "loop_j_traced (cell i) i js outp = (r, accesses)"
    by (cases "loop_j_traced (cell i) i js outp")
  have acc: "list_all in_bounds accesses"
    using loop_j_traced_in_bounds [of js "cell i" R C outp i] Cons.prems j by simp
  show ?case
  proof (cases r)
    case (Inl e)
    then show ?thesis using j acc by simp
  next
    case (Inr outp')
    then have "loop_j (\<lambda>j. fst (cell i j)) i js outp = Inr outp'"
      using loop_j_traced_result [of "cell i" i js outp] j by simp
    then have "is_array R C outp'"
      using Cons.prems(2) by (rule is_array_loop_j)
    then have "list_all in_bounds (snd (loop_i_traced cell is js outp'))"
      using Cons.prems by (intro Cons.IH) auto
    then show ?thesis
      using j Inr acc by (simp add: case_prod_beta)
  qed
qed

lemma fill_traced_in_bounds:
  assumes "\<forall>i<M. \<forall>j<M. list_all in_bounds (snd (cell i j))"
  shows "list_all in_bounds
           (snd (loop_i_traced cell [0..<M] [0..<M] (replicate M (replicate M 0))))"
proof -
  have "is_array M M (replicate M (replicate M (0::int)))"
    by (simp add: is_array_def list_all_iff)
  then show ?thesis
    using assms by (intro loop_i_traced_in_bounds [of _ _ _ M M]) auto
qed

lemma sum_window_in_bounds:
  assumes "is_array N N a" and "i + k \<le> N" and "j + k \<le> N"
  shows "in_bounds (Read_window (shape0 a) (shape1 a) (sum_window (int k) i j))"
  using assms
  by (simp add: in_bounds_def window_within_def sum_window_def shape0_def is_array_length
      shape1_square)

lemma max_window_in_bounds:
  assumes "is_array N N a" and "i * s + q \<le> N" and "j * s + q \<le> N"
  shows "in_bounds (Read_window (shape0 a) (shape1 a) (max_window (int q) (int s) i j))"
proof -
  have "int i * int s + int q \<le> int N" and "int j * int s + int q \<le> int N"
    using assms(2,3) by (metis of_nat_add of_nat_mult of_nat_le_iff)+
  then show ?thesis
    using assms(1)
    by (simp add: in_bounds_def window_within_def max_window_def shape0_def is_array_length
        shape1_square)
qed

lemma convolution2d_traced_in_bounds:
  assumes "is_array N N img" and "is_array k k kern" and "k \<le> N"
  shows "list_all in_bounds (snd (convolution2d_traced img kern))"
proof -
  define M where "M = N - k + 1"
  have size: "int (shape0 img) - int (shape0 kern) + 1 = int M"
    using assms M_def by (simp add: shape0_def is_array_length)
  have cells: "\<forall>i<M. \<forall>j<M. list_all in_bounds (snd (window_sum_traced img kern (int k) i j))"
    using assms M_def by (auto simp: window_sum_traced_def intro!: sum_window_in_bounds [of N])
  have "convolution2d_traced img kern
          = loop_i_traced (window_sum_traced img kern (int k)) [0..<M] [0..<M]
              (replicate M (replicate M 0))"
    using assms(2) by (simp add: convolution2d_traced_def Let_def size np_zeros_nat)
      (simp add: shape0_def is_array_length)
  then show ?thesis
    using fill_traced_in_bounds [OF cells] by simp
qed

lemma convolution2d_with_padding_traced_in_bounds:
  assumes "is_array N N img" and "is_array k k kern" and "k \<le> 2 * p + 1"
  shows "list_all in_bounds (snd (convolution2d_with_padding_traced img kern (int p)))"
proof -
  let ?padded = "zero_padded N img p"
  have cells: "\<forall>i<N. \<forall>j<N. list_all in_bounds (snd (window_sum_traced ?padded kern (int k) i j))"
    using assms
    by (auto simp: window_sum_traced_def
        intro!: sum_window_in_bounds [of "N + 2 * p"] is_array_zero_padded)
  have "convolution2d_with_padding_traced img kern (int p)
          = loop_i_traced (window_sum_traced ?padded kern (int k)) [0..<N] [0..<N]
              (replicate N (replicate N 0))"
    using assms(1,2)
    by (simp add: convolution2d_with_padding_traced_def np_pad_eq [of N] Let_def shape0_def
        is_array_length np_zeros_nat)
  then show ?thesis
    using fill_traced_in_bounds [OF cells] by simp
qed

lemma max_pooling2d_traced_in_bounds:
  assumes "is_array N N img" and "0 < q" and "q \<le> N" and "0 < s"
  shows "list_all in_bounds (snd (max_pooling2d_traced img (int q) (int s)))"
proof -
  define M where "M = (N - q) div s + 1"
  have "int ((N - q) div s) = (int N - int q) div int s"
    using assms(3) by (simp add: zdiv_int of_nat_diff)
  then have size: "(int (shape0 img) - int q) div int s + 1 = int M"
    using assms(1) M_def by (simp add: shape0_def is_array_length)
  have cells: "\<forall>i<M. \<forall>j<M.
      list_all in_bounds (snd (window_max_traced img (int q) (int s) i j))"
  proof (intro allI impI)
    fix i j assume "i < M" and "j < M"
    then have "i * s + q \<le> N" and "j * s + q \<le> N"
      using assms(3) M_def by (simp_all add: pool_index_bound)
    then show "list_all in_bounds (snd (window_max_traced img (int q) (int s) i j))"
      using assms(1) by (simp add: window_max_traced_def max_window_in_bounds [of N])
  qed
  have "max_pooling2d_traced img (int q) (int s)
          = loop_i_traced (window_max_traced img (int q) (int s)) [0..<M] [0..<M]
              (replicate M (replicate M 0))"
    using assms(4) by (simp add: max_pooling2d_traced_def Let_def size np_zeros_nat)
  then show ?thesis
    using fill_traced_in_bounds [OF cells] by simp
qed

section \<open>The claims\<close>

subsection \<open>Convolution\<close>

text \<open>
  Claim C1, as amended. For every \<open>N \<times> N\<close> \<^verbatim>\<open>int64\<close> image and every \<open>k \<times> k\<close> \<^verbatim>\<open>int64\<close>
  kernel with \<open>k \<le> N\<close>, \<^verbatim>\<open>convolution2d\<close> returns an \<open>(N - k + 1) \<times> (N - k + 1)\<close> grid.
  Its cell \<open>(i, j)\<close> is the double nearest to the sliding-window weighted sum
  \<open>\<Sum>m<k. \<Sum>n<k. image[i+m][j+n] \<cdot> kernel[m][n]\<close> reduced to the \<^verbatim>\<open>int64\<close> range, and it
  equals that sum whenever the sum has magnitude at most \<open>2 ^ 53\<close>.
\<close>

theorem convolution2d_sliding_window:
  assumes "is_array N N img" and "is_array k k kern" and "k \<le> N"
  shows "\<exists>out. convolution2d img kern = Inr out \<and> is_array (N - k + 1) (N - k + 1) out \<and>
           (\<forall>i<N - k + 1. \<forall>j<N - k + 1.
              out ! i ! j = float64_of_int (wrap_int64 (weighted_sum img kern k i j)) \<and>
              (\<bar>weighted_sum img kern k i j\<bar> \<le> 2 ^ 53 \<longrightarrow>
                 out ! i ! j = weighted_sum img kern k i j))"
proof -
  define M where "M = N - k + 1"
  let ?out = "map (\<lambda>i. map (\<lambda>j. float64_of_int (wrap_int64 (weighted_sum img kern k i j)))
                [0..<M]) [0..<M]"
  have "convolution2d img kern = Inr ?out"
    using assms M_def by (rule convolution2d_closed_form)
  moreover have "is_array M M ?out"
    by (simp add: is_array_def list_all_iff)
  moreover have "\<forall>i<M. \<forall>j<M.
      ?out ! i ! j = float64_of_int (wrap_int64 (weighted_sum img kern k i j)) \<and>
      (\<bar>weighted_sum img kern k i j\<bar> \<le> 2 ^ 53 \<longrightarrow> ?out ! i ! j = weighted_sum img kern k i j)"
    by (simp add: float64_of_int_exact wrap_int64_exact)
  ultimately show ?thesis
    unfolding M_def by blast
qed

theorem convolution2d_sliding_window_witness:
  "is_array 5 5 input_image \<and> is_array 3 3 filter_kernel \<and> (3::nat) \<le> 5 \<and>
   (\<exists>out. convolution2d input_image filter_kernel = Inr out \<and> is_array 3 3 out \<and>
      out ! 1 ! 2 = weighted_sum input_image filter_kernel 3 1 2 \<and> out ! 1 ! 2 = - 6)"
proof -
  have a: "is_array 5 5 input_image" by (simp add: is_array_def input_image_def)
  have b: "is_array 3 3 filter_kernel" by (simp add: is_array_def filter_kernel_def)
  have w: "weighted_sum input_image filter_kernel 3 1 2 = - 6"
    by code_simp
  from convolution2d_sliding_window [OF a b] obtain out where
    out: "convolution2d input_image filter_kernel = Inr out" "is_array 3 3 out"
      "\<forall>i<3. \<forall>j<3. \<bar>weighted_sum input_image filter_kernel 3 i j\<bar> \<le> 2 ^ 53 \<longrightarrow>
         out ! i ! j = weighted_sum input_image filter_kernel 3 i j"
    by auto
  have "out ! 1 ! 2 = weighted_sum input_image filter_kernel 3 1 2"
    using out(3) w by simp
  then show ?thesis using a b w out by simp
qed

text \<open>
  The cell is not the weighted sum itself for every image: the product \<open>2 ^ 62 \<cdot> 4\<close> wraps
  around to 0, and \<open>2 ^ 53 + 1\<close> is not a double.
\<close>

theorem convolution2d_exact_sum_counterexample:
  "is_array 1 1 [[2 ^ 62 :: int64]] \<and> is_array 1 1 [[4 :: int64]] \<and>
   convolution2d [[2 ^ 62]] [[4]] = Inr [[0]] \<and>
   weighted_sum [[2 ^ 62]] [[4]] 1 0 0 = 2 ^ 64 \<and>
   is_array 1 1 [[2 ^ 53 + 1 :: int64]] \<and> is_array 1 1 [[1 :: int64]] \<and>
   convolution2d [[2 ^ 53 + 1]] [[1]] = Inr [[2 ^ 53]] \<and>
   weighted_sum [[2 ^ 53 + 1]] [[1]] 1 0 0 = 2 ^ 53 + 1"
  by code_simp

text \<open>
  Claim C3. On the \<open>5 \<times> 5\<close> input matrix of the notebook and its \<open>3 \<times> 3\<close> vertical-edge
  kernel, \<^verbatim>\<open>convolution2d\<close> returns a \<open>3 \<times> 3\<close> output in which every cell is \<open>-6\<close>.
\<close>

theorem convolution2d_notebook_output:
  "convolution2d
     [[1, 2, 3, 4, 5], [6, 7, 8, 9, 10], [11, 12, 13, 14, 15], [16, 17, 18, 19, 20],
      [21, 22, 23, 24, 25]]
     [[1, 0, - 1], [1, 0, - 1], [1, 0, - 1]]
   = Inr [[- 6, - 6, - 6], [- 6, - 6, - 6], [- 6, - 6, - 6]]
   \<and> input_image =
     [[1, 2, 3, 4, 5], [6, 7, 8, 9, 10], [11, 12, 13, 14, 15], [16, 17, 18, 19, 20],
      [21, 22, 23, 24, 25]]
   \<and> filter_kernel = [[1, 0, - 1], [1, 0, - 1], [1, 0, - 1]]"
  by code_simp

text \<open>
  Claim C4. On the same input and kernel, \<^verbatim>\<open>convolution2d_with_padding\<close> with
  \<^verbatim>\<open>padding=1\<close> returns the \<open>5 \<times> 5\<close> matrix that the notebook prints.
\<close>

theorem convolution2d_with_padding_notebook_output:
  "convolution2d_with_padding input_image filter_kernel 1
   = Inr [[- 9, - 4, - 4, - 4, 13],
          [- 21, - 6, - 6, - 6, 27],
          [- 36, - 6, - 6, - 6, 42],
          [- 51, - 6, - 6, - 6, 57],
          [- 39, - 4, - 4, - 4, 43]]"
  by code_simp

subsection \<open>Convolution with zero padding\<close>

text \<open>
  Claim C10. For every \<open>N \<times> N\<close> image and every odd \<open>k \<times> k\<close> kernel with \<open>k \<le> N\<close>, when
  the padding \<open>p\<close> satisfies \<open>2p = k - 1\<close>, \<^verbatim>\<open>convolution2d_with_padding(image, kernel, p)\<close>
  equals \<^verbatim>\<open>convolution2d\<close> applied to the image zero-padded by \<open>p\<close> on every side, and its
  output has the \<open>N \<times> N\<close> shape of the input. The output size is fixed to \<open>N \<times> N\<close> whatever
  the kernel size and the padding, so the two agree only under that relation between
  \<open>p\<close> and \<open>k\<close>.
\<close>

theorem convolution2d_with_padding_same:
  assumes "is_array N N img" and "is_array k k kern" and "k \<le> N"
  shows "(odd k \<and> 2 * p = k - 1 \<longrightarrow>
            convolution2d_with_padding img kern (int p)
              = convolution2d (zero_padded N img p) kern \<and>
            (\<exists>out. convolution2d_with_padding img kern (int p) = Inr out \<and> is_array N N out)) \<and>
         (convolution2d_with_padding img kern (int p)
              = convolution2d (zero_padded N img p) kern \<longrightarrow>
            odd k \<and> 2 * p = k - 1)"
proof (intro conjI impI)
  assume "odd k \<and> 2 * p = k - 1"
  then have k: "k = 2 * p + 1" by (auto elim: oddE)
  let ?out = "map (\<lambda>i. map (\<lambda>j. float64_of_int
                 (wrap_int64 (weighted_sum (zero_padded N img p) kern k i j))) [0..<N]) [0..<N]"
  have a: "convolution2d_with_padding img kern (int p) = Inr ?out"
    using assms(1,2) k by (intro convolution2d_with_padding_closed_form) simp_all
  have b: "convolution2d (zero_padded N img p) kern = Inr ?out"
    using is_array_zero_padded assms(2,3) k
    by (intro convolution2d_closed_form [of "N + 2 * p"]) simp_all
  show "convolution2d_with_padding img kern (int p) = convolution2d (zero_padded N img p) kern"
    using a b by simp
  have "is_array N N ?out"
    by (simp add: is_array_def list_all_iff)
  then show "\<exists>out. convolution2d_with_padding img kern (int p) = Inr out \<and> is_array N N out"
    using a by blast
next
  assume eq: "convolution2d_with_padding img kern (int p)
                = convolution2d (zero_padded N img p) kern"
  define M where "M = N + 2 * p - k + 1"
  let ?out = "map (\<lambda>i. map (\<lambda>j. float64_of_int
                 (wrap_int64 (weighted_sum (zero_padded N img p) kern k i j))) [0..<M]) [0..<M]"
  have "convolution2d (zero_padded N img p) kern = Inr ?out"
    using is_array_zero_padded assms(2,3) M_def
    by (intro convolution2d_closed_form [of "N + 2 * p"]) simp_all
  then have "length ?out = length img"
    using eq by (intro length_convolution2d_with_padding) simp
  then have "M = N"
    using assms(1) by (simp add: is_array_length)
  then have "k = 2 * p + 1"
    using assms(3) M_def by simp
  then show "odd k" and "2 * p = k - 1" by simp_all
qed

theorem convolution2d_with_padding_same_witness:
  "is_array 5 5 input_image \<and> is_array 3 3 filter_kernel \<and> (3::nat) \<le> 5 \<and>
   odd (3::nat) \<and> 2 * (1::nat) = 3 - 1 \<and>
   convolution2d_with_padding input_image filter_kernel 1
     = convolution2d (zero_padded 5 input_image 1) filter_kernel \<and>
   (\<exists>out. convolution2d_with_padding input_image filter_kernel 1 = Inr out \<and> is_array 5 5 out)"
proof -
  have a: "is_array 5 5 input_image" by (simp add: is_array_def input_image_def)
  have b: "is_array 3 3 filter_kernel" by (simp add: is_array_def filter_kernel_def)
  have c: "(3::nat) \<le> 5" by simp
  have d: "odd (3::nat)" by simp
  have e: "2 * (1::nat) = 3 - 1" by simp
  note same = convolution2d_with_padding_same [OF a b c, of 1, unfolded of_nat_1]
  from same d e have f: "convolution2d_with_padding input_image filter_kernel 1
          = convolution2d (zero_padded 5 input_image 1) filter_kernel"
    and g: "\<exists>out. convolution2d_with_padding input_image filter_kernel 1 = Inr out \<and>
           is_array 5 5 out"
    by blast+
  from a b c d e f g show ?thesis
    by (intro conjI)
qed

subsection \<open>Additivity in the kernel\<close>

text \<open>
  Claim C9, as amended. For every \<open>N \<times> N\<close> \<^verbatim>\<open>int64\<close> image and every pair of \<open>k \<times> k\<close>
  \<^verbatim>\<open>int64\<close> kernels \<open>K1\<close> and \<open>K2\<close> with \<open>k \<le> N\<close> such that, in every window, the weighted
  sum for \<open>K1\<close> and the weighted sum for \<open>K2\<close> have magnitude at most \<open>2 ^ 53\<close>,
  \<^verbatim>\<open>convolution2d(image, K1 + K2)\<close> equals the cell-wise sum
  \<^verbatim>\<open>convolution2d(image, K1) + convolution2d(image, K2)\<close>.
\<close>

theorem convolution2d_additive_in_kernel:
  assumes "is_array N N img" and "is_array k k K1" and "is_array k k K2" and "k \<le> N"
    and "\<forall>i<N - k + 1. \<forall>j<N - k + 1.
           \<bar>weighted_sum img K1 k i j\<bar> \<le> 2 ^ 53 \<and> \<bar>weighted_sum img K2 k i j\<bar> \<le> 2 ^ 53"
  shows "\<exists>K a b c. np_add K1 K2 = Inr K \<and> convolution2d img K = Inr c \<and>
           convolution2d img K1 = Inr a \<and> convolution2d img K2 = Inr b \<and>
           np_add_float64 a b = Inr c"
proof -
  define M where "M = N - k + 1"
  define K where "K = map (\<lambda>m. map (\<lambda>n. K1 ! m ! n + K2 ! m ! n) [0..<k]) [0..<k]"
  define a where "a = map (\<lambda>i. map (\<lambda>j. float64_of_int (wrap_int64 (weighted_sum img K1 k i j)))
                        [0..<M]) [0..<M]"
  define b where "b = map (\<lambda>i. map (\<lambda>j. float64_of_int (wrap_int64 (weighted_sum img K2 k i j)))
                        [0..<M]) [0..<M]"
  define c where "c = map (\<lambda>i. map (\<lambda>j. float64_of_int (wrap_int64 (weighted_sum img K k i j)))
                        [0..<M]) [0..<M]"
  have K: "np_add K1 K2 = Inr K"
    using broadcast2_same_shape [OF assms(2,3), of "(+)"] by (simp add: np_add_def K_def)
  have "is_array k k K"
    unfolding K_def by (rule is_array_grid)
  then have cc: "convolution2d img K = Inr c"
    unfolding c_def using assms(1,4) M_def by (intro convolution2d_closed_form) auto
  have ca: "convolution2d img K1 = Inr a"
    unfolding a_def using assms(1,2,4) M_def by (rule convolution2d_closed_form)
  have cb: "convolution2d img K2 = Inr b"
    unfolding b_def using assms(1,3,4) M_def by (rule convolution2d_closed_form)
  have "is_array M M a" and "is_array M M b"
    unfolding a_def b_def by (rule is_array_grid)+
  then have "np_add_float64 a b
               = Inr (map (\<lambda>i. map (\<lambda>j. float64_add (a ! i ! j) (b ! i ! j)) [0..<M]) [0..<M])"
    unfolding np_add_float64_def by (rule broadcast2_same_shape)
  also have "map (\<lambda>i. map (\<lambda>j. float64_add (a ! i ! j) (b ! i ! j)) [0..<M]) [0..<M] = c"
    unfolding c_def
  proof (intro map_cong refl)
    fix i j assume "i \<in> set [0..<M]" and "j \<in> set [0..<M]"
    then have ij: "i < M" "j < M" by simp_all
    let ?s1 = "weighted_sum img K1 k i j" and ?s2 = "weighted_sum img K2 k i j"
    have bound: "\<bar>?s1\<bar> \<le> 2 ^ 53" "\<bar>?s2\<bar> \<le> 2 ^ 53"
      using assms(5) ij unfolding M_def by blast+
    then have total: "\<bar>?s1 + ?s2\<bar> \<le> 2 ^ 54"
      by simp
    have "a ! i ! j = ?s1" and "b ! i ! j = ?s2"
      using ij bound by (simp_all add: a_def b_def wrap_int64_exact float64_of_int_exact)
    then have "float64_add (a ! i ! j) (b ! i ! j) = float64_of_int (?s1 + ?s2)"
      by (simp add: float64_add_def)
    moreover have "float64_of_int (wrap_int64 (weighted_sum img K k i j))
                     = float64_of_int (?s1 + ?s2)"
      using total unfolding K_def weighted_sum_add_kernel
      by (simp add: wrap_int64_in_range)
    ultimately show "float64_add (a ! i ! j) (b ! i ! j)
                       = float64_of_int (wrap_int64 (weighted_sum img K k i j))"
      by simp
  qed
  finally have "np_add_float64 a b = Inr c" .
  with K cc ca cb show ?thesis by blast
qed

theorem convolution2d_additive_in_kernel_witness:
  "is_array 5 5 input_image \<and> is_array 3 3 filter_kernel \<and>
   is_array 3 3 [[- 1, - 2, - 1], [0, 0, 0], [1, 2, 1 :: int64]] \<and> (3::nat) \<le> 5 \<and>
   (\<exists>K a b c. np_add filter_kernel [[- 1, - 2, - 1], [0, 0, 0], [1, 2, 1]] = Inr K \<and>
      convolution2d input_image K = Inr c \<and>
      convolution2d input_image filter_kernel = Inr a \<and>
      convolution2d input_image [[- 1, - 2, - 1], [0, 0, 0], [1, 2, 1]] = Inr b \<and>
      np_add_float64 a b = Inr c)"
proof -
  let ?sobel = "[[- 1, - 2, - 1], [0, 0, 0], [1, 2, 1 :: int64]]"
  have a: "is_array 5 5 input_image" by (simp add: is_array_def input_image_def)
  have b: "is_array 3 3 filter_kernel" by (simp add: is_array_def filter_kernel_def)
  have c: "is_array 3 3 ?sobel" by (simp add: is_array_def)
  have d: "(3::nat) \<le> 5" by simp
  have e: "\<forall>i<5 - 3 + 1. \<forall>j<5 - 3 + 1.
           \<bar>weighted_sum input_image filter_kernel 3 i j\<bar> \<le> 2 ^ 53 \<and>
           \<bar>weighted_sum input_image ?sobel 3 i j\<bar> \<le> 2 ^ 53"
  proof (intro allI impI)
    fix i j :: nat
    assume "i < 5 - 3 + 1" and "j < 5 - 3 + 1"
    then have ij: "i = 0 \<or> i = 1 \<or> i = 2" "j = 0 \<or> j = 1 \<or> j = 2"
      by auto
    have "weighted_sum input_image filter_kernel 3 i j = - 6"
      using ij by (elim disjE; hypsubst) code_simp+
    moreover have "weighted_sum input_image ?sobel 3 i j = 40"
      using ij by (elim disjE; hypsubst) code_simp+
    ultimately show "\<bar>weighted_sum input_image filter_kernel 3 i j\<bar> \<le> 2 ^ 53 \<and>
           \<bar>weighted_sum input_image ?sobel 3 i j\<bar> \<le> 2 ^ 53"
      by simp
  qed
  from convolution2d_additive_in_kernel [OF a b c d e] a b c d show ?thesis
    by (intro conjI)
qed

text \<open>
  Without the bound the two sides differ: the kernels \<open>2 ^ 53 + 1\<close> and \<open>1\<close> add up to
  \<open>2 ^ 53 + 2\<close>, which is a double, while the double of \<open>2 ^ 53 + 1\<close> is \<open>2 ^ 53\<close> and the
  sum of the doubles \<open>2 ^ 53\<close> and \<open>1\<close> rounds to \<open>2 ^ 53\<close>.
\<close>

theorem convolution2d_additive_counterexample:
  "is_array 1 1 [[1 :: int64]] \<and> is_array 1 1 [[2 ^ 53 + 1 :: int64]] \<and>
   np_add [[2 ^ 53 + 1]] [[1]] = Inr [[2 ^ 53 + 2]] \<and>
   convolution2d [[1]] [[2 ^ 53 + 2]] = Inr [[2 ^ 53 + 2]] \<and>
   convolution2d [[1]] [[2 ^ 53 + 1]] = Inr [[2 ^ 53]] \<and>
   convolution2d [[1]] [[1]] = Inr [[1]] \<and>
   np_add_float64 [[2 ^ 53]] [[1]] = Inr [[2 ^ 53]]"
  by code_simp

subsection \<open>Max pooling\<close>

text \<open>
  Claim C2, as amended. For every \<open>N \<times> N\<close> \<^verbatim>\<open>int64\<close> image, every pool size \<open>p\<close> with
  \<open>1 \<le> p \<le> N\<close> and every stride \<open>s \<ge> 1\<close>, \<^verbatim>\<open>max_pooling2d\<close> returns an \<open>M \<times> M\<close> grid
  with \<open>M = (N - p) div s + 1\<close>. Its cell \<open>(i, j)\<close> is the double nearest to the maximum of
  the \<open>p \<times> p\<close> window \<open>image[i\<cdot>s .. i\<cdot>s+p-1][j\<cdot>s .. j\<cdot>s+p-1]\<close>, and it equals that
  maximum whenever the maximum has magnitude at most \<open>2 ^ 53\<close>.
\<close>

theorem max_pooling2d_sliding_window:
  assumes "is_array N N img" and "1 \<le> p" and "p \<le> N" and "1 \<le> s"
  shows "\<exists>out. max_pooling2d img (int p) (int s) = Inr out \<and>
           is_array ((N - p) div s + 1) ((N - p) div s + 1) out \<and>
           (\<forall>i<(N - p) div s + 1. \<forall>j<(N - p) div s + 1.
              out ! i ! j = float64_of_int (window_maximum img p s i j) \<and>
              (\<bar>window_maximum img p s i j\<bar> \<le> 2 ^ 53 \<longrightarrow>
                 out ! i ! j = window_maximum img p s i j))"
proof -
  define M where "M = (N - p) div s + 1"
  let ?out = "map (\<lambda>i. map (\<lambda>j. float64_of_int (window_maximum img p s i j)) [0..<M]) [0..<M]"
  have "max_pooling2d img (int p) (int s) = Inr ?out"
    using assms M_def by (intro max_pooling2d_closed_form) auto
  moreover have "is_array M M ?out"
    by (simp add: is_array_def list_all_iff)
  moreover have "\<forall>i<M. \<forall>j<M.
      ?out ! i ! j = float64_of_int (window_maximum img p s i j) \<and>
      (\<bar>window_maximum img p s i j\<bar> \<le> 2 ^ 53 \<longrightarrow> ?out ! i ! j = window_maximum img p s i j)"
    by (simp add: float64_of_int_exact)
  ultimately show ?thesis
    unfolding M_def by blast
qed

theorem max_pooling2d_sliding_window_witness:
  "is_array 5 5 input_image \<and> (1::nat) \<le> 2 \<and> (2::nat) \<le> 5 \<and>
   (\<exists>out. max_pooling2d input_image 2 2 = Inr out \<and> is_array 2 2 out \<and>
      out ! 1 ! 0 = window_maximum input_image 2 2 1 0 \<and> out ! 1 ! 0 = 17)"
proof -
  have a: "is_array 5 5 input_image" by (simp add: is_array_def input_image_def)
  have w: "window_maximum input_image 2 2 1 0 = 17"
    by (simp add: window_maximum_def input_image_def)
  have "\<exists>out. max_pooling2d input_image (int 2) (int 2) = Inr out \<and>
           is_array ((5 - 2) div 2 + 1) ((5 - 2) div 2 + 1) out \<and>
           (\<forall>i<(5 - 2) div 2 + 1. \<forall>j<(5 - 2) div 2 + 1.
              out ! i ! j = float64_of_int (window_maximum input_image 2 2 i j) \<and>
              (\<bar>window_maximum input_image 2 2 i j\<bar> \<le> 2 ^ 53 \<longrightarrow>
                 out ! i ! j = window_maximum input_image 2 2 i j))"
    by (rule max_pooling2d_sliding_window [OF a]) simp_all
  then obtain out where
    out: "max_pooling2d input_image (int 2) (int 2) = Inr out"
      "is_array ((5 - 2) div 2 + 1) ((5 - 2) div 2 + 1) out"
      "\<forall>i<(5 - 2) div 2 + 1. \<forall>j<(5 - 2) div 2 + 1.
          \<bar>window_maximum input_image 2 2 i j\<bar> \<le> 2 ^ 53 \<longrightarrow>
          out ! i ! j = window_maximum input_image 2 2 i j"
    by blast
  have c: "out ! 1 ! 0 = window_maximum input_image 2 2 1 0"
    using out(3) [rule_format, of 1 0] w by simp
  have sz: "(5 - 2) div 2 + 1 = (2::nat)"
    by simp
  have d: "is_array 2 2 out"
    using out(2) unfolding sz .
  have e: "max_pooling2d input_image 2 2 = Inr out"
    using out(1) by simp
  have f: "out ! 1 ! 0 = 17"
    using c w by (rule trans)
  have "\<exists>out. max_pooling2d input_image 2 2 = Inr out \<and> is_array 2 2 out \<and>
      out ! 1 ! 0 = window_maximum input_image 2 2 1 0 \<and> out ! 1 ! 0 = 17"
    using c d e f by blast
  moreover have "(1::nat) \<le> 2" "(2::nat) \<le> 5"
    by simp_all
  ultimately show ?thesis
    using a by (intro conjI)
qed

text \<open>The cell is not the maximum itself for every image: \<open>2 ^ 53 + 1\<close> is not a double.\<close>

theorem max_pooling2d_exact_maximum_counterexample:
  "is_array 1 1 [[2 ^ 53 + 1 :: int64]] \<and>
   max_pooling2d [[2 ^ 53 + 1]] 1 1 = Inr [[2 ^ 53]] \<and>
   window_maximum [[2 ^ 53 + 1]] 1 1 0 0 = 2 ^ 53 + 1"
proof -
  have "max_pooling2d [[2 ^ 53 + 1]] 1 1 = Inr [[2 ^ 53]]"
    by code_simp
  moreover have "window_maximum [[2 ^ 53 + 1]] 1 1 0 0 = 2 ^ 53 + 1"
    by (simp add: window_maximum_def)
  moreover have "is_array 1 1 [[2 ^ 53 + 1 :: int64]]"
    by (simp add: is_array_def)
  ultimately show ?thesis
    by (intro conjI)
qed

text \<open>
  Claim C5. On the \<open>5 \<times> 5\<close> input matrix of the notebook, \<^verbatim>\<open>max_pooling2d\<close> with
  \<^verbatim>\<open>pool_size=2\<close> and \<^verbatim>\<open>stride=2\<close> returns the \<open>2 \<times> 2\<close> matrix \<open>[[7, 9], [17, 19]]\<close>.
\<close>

theorem max_pooling2d_notebook_output:
  "max_pooling2d
     [[1, 2, 3, 4, 5], [6, 7, 8, 9, 10], [11, 12, 13, 14, 15], [16, 17, 18, 19, 20],
      [21, 22, 23, 24, 25]] 2 2
   = Inr [[7, 9], [17, 19]]"
  by code_simp

subsection \<open>Errors and bounds\<close>

text \<open>
  Claim C6, as amended. Under the precondition of well-formed, correctly shaped inputs
  (a square \<^verbatim>\<open>int64\<close> image, a square \<^verbatim>\<open>int64\<close> kernel no larger than the image, for
  \<^verbatim>\<open>convolution2d_with_padding\<close> a padding \<open>p \<ge> 0\<close> with \<open>k \<le> 2p + 1\<close>, for \<^verbatim>\<open>max_pooling2d\<close>
  a pool window fitting in the image, \<open>1 \<le> q \<le> N\<close>, and a stride \<open>s \<ge> 1\<close>), every array access
  performed by \<^verbatim>\<open>convolution2d\<close>, \<^verbatim>\<open>convolution2d_with_padding\<close> and \<^verbatim>\<open>max_pooling2d\<close>, each
  window read and each store \<^verbatim>\<open>output[i, j] = v\<close>, is within bounds, and no error branch is
  reachable: each function returns a grid.
\<close>

theorem no_error_on_well_shaped_inputs:
  assumes "is_array N N img" and "is_array k k kern" and "k \<le> N"
  shows "(\<exists>out accesses.
            convolution2d_traced img kern = (Inr out, accesses) \<and>
            list_all in_bounds accesses \<and> convolution2d img kern = Inr out) \<and>
         (k \<le> 2 * p + 1 \<longrightarrow>
            (\<exists>out accesses.
               convolution2d_with_padding_traced img kern (int p) = (Inr out, accesses) \<and>
               list_all in_bounds accesses \<and>
               convolution2d_with_padding img kern (int p) = Inr out)) \<and>
         (1 \<le> q \<and> q \<le> N \<and> 1 \<le> s \<longrightarrow>
            (\<exists>out accesses.
               max_pooling2d_traced img (int q) (int s) = (Inr out, accesses) \<and>
               list_all in_bounds accesses \<and>
               max_pooling2d img (int q) (int s) = Inr out))"
proof (intro conjI impI)
  obtain out where out: "convolution2d img kern = Inr out"
    using convolution2d_closed_form [OF assms refl] by blast
  then have "fst (convolution2d_traced img kern) = Inr out"
    by (simp add: convolution2d_traced_result)
  moreover have "list_all in_bounds (snd (convolution2d_traced img kern))"
    using assms by (rule convolution2d_traced_in_bounds)
  ultimately show "\<exists>out accesses.
            convolution2d_traced img kern = (Inr out, accesses) \<and>
            list_all in_bounds accesses \<and> convolution2d img kern = Inr out"
    using out by (metis prod.collapse)
next
  assume k: "k \<le> 2 * p + 1"
  obtain out where out: "convolution2d_with_padding img kern (int p) = Inr out"
    using convolution2d_with_padding_closed_form [OF assms(1,2) k] by blast
  then have "fst (convolution2d_with_padding_traced img kern (int p)) = Inr out"
    by (simp add: convolution2d_with_padding_traced_result)
  moreover have "list_all in_bounds (snd (convolution2d_with_padding_traced img kern (int p)))"
    using assms(1,2) k by (rule convolution2d_with_padding_traced_in_bounds)
  ultimately show "\<exists>out accesses.
               convolution2d_with_padding_traced img kern (int p) = (Inr out, accesses) \<and>
               list_all in_bounds accesses \<and>
               convolution2d_with_padding img kern (int p) = Inr out"
    using out by (metis prod.collapse)
next
  assume "1 \<le> q \<and> q \<le> N \<and> 1 \<le> s"
  then have q: "0 < q" "q \<le> N" "0 < s" by simp_all
  obtain out where out: "max_pooling2d img (int q) (int s) = Inr out"
    using max_pooling2d_closed_form [OF assms(1) q refl] by blast
  then have "fst (max_pooling2d_traced img (int q) (int s)) = Inr out"
    by (simp add: max_pooling2d_traced_result)
  moreover have "list_all in_bounds (snd (max_pooling2d_traced img (int q) (int s)))"
    using assms(1) q by (rule max_pooling2d_traced_in_bounds)
  ultimately show "\<exists>out accesses.
               max_pooling2d_traced img (int q) (int s) = (Inr out, accesses) \<and>
               list_all in_bounds accesses \<and>
               max_pooling2d img (int q) (int s) = Inr out"
    using out by (metis prod.collapse)
qed

theorem no_error_on_well_shaped_inputs_witness:
  "is_array 5 5 input_image \<and> is_array 3 3 filter_kernel \<and> (3::nat) \<le> 5 \<and>
   (3::nat) \<le> 2 * 1 + 1 \<and> (1::nat) \<le> 2 \<and> (2::nat) \<le> 5 \<and>
   (\<exists>out accesses.
      convolution2d_traced input_image filter_kernel = (Inr out, accesses) \<and>
      list_all in_bounds accesses \<and> convolution2d input_image filter_kernel = Inr out) \<and>
   (\<exists>out accesses.
      convolution2d_with_padding_traced input_image filter_kernel 1 = (Inr out, accesses) \<and>
      list_all in_bounds accesses \<and>
      convolution2d_with_padding input_image filter_kernel 1 = Inr out) \<and>
   (\<exists>out accesses.
      max_pooling2d_traced input_image 2 2 = (Inr out, accesses) \<and>
      list_all in_bounds accesses \<and> max_pooling2d input_image 2 2 = Inr out) \<and>
   max_pooling2d_traced input_image 2 2
     = (Inr [[7, 9], [17, 19]],
        [Read_window 5 5 (0, 2, 0, 2), Store_item 2 2 0 0,
         Read_window 5 5 (0, 2, 2, 4), Store_item 2 2 0 1,
         Read_window 5 5 (2, 4, 0, 2), Store_item 2 2 1 0,
         Read_window 5 5 (2, 4, 2, 4), Store_item 2 2 1 1])"
proof -
  have a: "is_array 5 5 input_image" by (simp add: is_array_def input_image_def)
  have b: "is_array 3 3 filter_kernel" by (simp add: is_array_def filter_kernel_def)
  have c: "(3::nat) \<le> 5" by simp
  have d: "(3::nat) \<le> 2 * 1 + 1" by simp
  have e: "(1::nat) \<le> 2" by simp
  have f: "(2::nat) \<le> 5" by simp
  note ok = no_error_on_well_shaped_inputs [OF a b c, of 1 2 2, unfolded of_nat_1 of_nat_numeral]
  from ok have g: "\<exists>out accesses.
      convolution2d_traced input_image filter_kernel = (Inr out, accesses) \<and>
      list_all in_bounds accesses \<and> convolution2d input_image filter_kernel = Inr out"
    by blast
  from ok d have h: "\<exists>out accesses.
      convolution2d_with_padding_traced input_image filter_kernel 1 = (Inr out, accesses) \<and>
      list_all in_bounds accesses \<and>
      convolution2d_with_padding input_image filter_kernel 1 = Inr out"
    by blast
  from ok e f have i: "\<exists>out accesses.
      max_pooling2d_traced input_image 2 2 = (Inr out, accesses) \<and>
      list_all in_bounds accesses \<and> max_pooling2d input_image 2 2 = Inr out"
    by blast
  have j: "max_pooling2d_traced input_image 2 2
     = (Inr [[7, 9], [17, 19]],
        [Read_window 5 5 (0, 2, 0, 2), Store_item 2 2 0 0,
         Read_window 5 5 (0, 2, 2, 4), Store_item 2 2 0 1,
         Read_window 5 5 (2, 4, 0, 2), Store_item 2 2 1 0,
         Read_window 5 5 (2, 4, 2, 4), Store_item 2 2 1 1])"
    by code_simp
  from a b c d e f g h i j show ?thesis
    by (intro conjI)
qed

text \<open>
  Without the bound on the padding the padded variant raises: with the default
  \<^verbatim>\<open>padding=1\<close> a \<open>5 \<times> 5\<close> kernel on the \<open>5 \<times> 5\<close> image reads the window of columns
  \<open>3..7\<close> of a \<open>7 \<times> 7\<close> padded image, which is clipped to four columns, and the product
  with the kernel fails to broadcast.
\<close>

theorem convolution2d_with_padding_raises_counterexample:
  "is_array 5 5 input_image \<and>
   is_array 5 5 [[1, 1, 1, 1, 1], [1, 1, 1, 1, 1], [1, 1, 1, 1, 1], [1, 1, 1, 1, 1],
                 [1, 1, 1, 1, 1 :: int64]] \<and>
   convolution2d_with_padding input_image
     [[1, 1, 1, 1, 1], [1, 1, 1, 1, 1], [1, 1, 1, 1, 1], [1, 1, 1, 1, 1], [1, 1, 1, 1, 1]] 1
   = Inl ValueError \<and>
   convolution2d_with_padding_traced input_image
     [[1, 1, 1, 1, 1], [1, 1, 1, 1, 1], [1, 1, 1, 1, 1], [1, 1, 1, 1, 1], [1, 1, 1, 1, 1]] 1
   = (Inl ValueError,
      [Read_window 7 7 (0, 5, 0, 5), Store_item 5 5 0 0,
       Read_window 7 7 (0, 5, 1, 6), Store_item 5 5 0 1,
       Read_window 7 7 (0, 5, 2, 7), Store_item 5 5 0 2,
       Read_window 7 7 (0, 5, 3, 8)]) \<and>
   \<not> in_bounds (Read_window 7 7 (0, 5, 3, 8))"
  by code_simp

subsection \<open>Effects on the heap\<close>

text \<open>
  Claim C7. For every heap and every pair of arguments that are addresses of \<^verbatim>\<open>int64\<close>
  arrays, a call of \<^verbatim>\<open>convolution2d\<close>, \<^verbatim>\<open>convolution2d_with_padding\<close> or \<^verbatim>\<open>max_pooling2d\<close>,
  whether it returns or raises, leaves the image array and the kernel array unchanged:
  every array of the heap before the call is in its place after it, and the address
  returned is that of an array allocated by the call.
\<close>

theorem arguments_unchanged:
  assumes "load_int64 h img = Some a" and "load_int64 h kern = Some k"
  shows "(\<exists>res h'. convolution2d_heap h img kern = Some (res, h') \<and>
            writes_only_fresh h h' res \<and>
            load_int64 h' img = Some a \<and> load_int64 h' kern = Some k) \<and>
         (\<exists>res h'. convolution2d_with_padding_heap h img kern padding = Some (res, h') \<and>
            writes_only_fresh h h' res \<and>
            load_int64 h' img = Some a \<and> load_int64 h' kern = Some k) \<and>
         (\<exists>res h'. max_pooling2d_heap h img pool_size stride = Some (res, h') \<and>
            writes_only_fresh h h' res \<and>
            load_int64 h' img = Some a)"
proof (intro conjI)
  from convolution2d_heap_refines [OF assms]
  show "\<exists>res h'. convolution2d_heap h img kern = Some (res, h') \<and>
            writes_only_fresh h h' res \<and>
            load_int64 h' img = Some a \<and> load_int64 h' kern = Some k"
    using assms by (blast intro: writes_only_fresh_load)
next
  from convolution2d_with_padding_heap_refines [OF assms]
  show "\<exists>res h'. convolution2d_with_padding_heap h img kern padding = Some (res, h') \<and>
            writes_only_fresh h h' res \<and>
            load_int64 h' img = Some a \<and> load_int64 h' kern = Some k"
    using assms by (blast intro: writes_only_fresh_load)
next
  from max_pooling2d_heap_refines [OF assms(1)]
  show "\<exists>res h'. max_pooling2d_heap h img pool_size stride = Some (res, h') \<and>
            writes_only_fresh h h' res \<and>
            load_int64 h' img = Some a"
    using assms by (blast intro: writes_only_fresh_load)
qed

theorem arguments_unchanged_witness:
  "load_int64 [Int64Array input_image, Int64Array filter_kernel] 0 = Some input_image \<and>
   load_int64 [Int64Array input_image, Int64Array filter_kernel] 1 = Some filter_kernel \<and>
   (\<exists>res h'. convolution2d_heap [Int64Array input_image, Int64Array filter_kernel] 0 1
                = Some (res, h') \<and>
      writes_only_fresh [Int64Array input_image, Int64Array filter_kernel] h' res \<and>
      load_int64 h' 0 = Some input_image \<and> load_int64 h' 1 = Some filter_kernel) \<and>
   (\<exists>res h'. convolution2d_with_padding_heap
                [Int64Array input_image, Int64Array filter_kernel] 0 1 1 = Some (res, h') \<and>
      writes_only_fresh [Int64Array input_image, Int64Array filter_kernel] h' res \<and>
      load_int64 h' 0 = Some input_image \<and> load_int64 h' 1 = Some filter_kernel) \<and>
   (\<exists>res h'. max_pooling2d_heap [Int64Array input_image, Int64Array filter_kernel] 0 2 2
                = Some (res, h') \<and>
      writes_only_fresh [Int64Array input_image, Int64Array filter_kernel] h' res \<and>
      load_int64 h' 0 = Some input_image)"
proof -
  let ?h = "[Int64Array input_image, Int64Array filter_kernel]"
  have a: "load_int64 ?h 0 = Some input_image"
    by (simp add: load_int64_def)
  have b: "load_int64 ?h 1 = Some filter_kernel"
    by (simp add: load_int64_def)
  from a b arguments_unchanged [OF a b, of 1 2 2] show ?thesis
    by (intro conjI) blast+
qed

text \<open>
  Claim C8. The three functions are deterministic and pure: two calls whose image
  arguments hold equal arrays and whose kernel arguments hold equal arrays (with equal
  padding, pool size and stride) produce equal outputs, whatever else the two heaps hold
  and wherever the arguments lie in them; the output is the one computed from the
  argument arrays alone.
\<close>

theorem results_depend_on_inputs_only:
  assumes "load_int64 h1 img1 = Some a" and "load_int64 h1 kern1 = Some k"
    and "load_int64 h2 img2 = Some a" and "load_int64 h2 kern2 = Some k"
  shows "result_of (convolution2d_heap h1 img1 kern1)
           = result_of (convolution2d_heap h2 img2 kern2) \<and>
         result_of (convolution2d_heap h1 img1 kern1)
           = Some (result_of_value (convolution2d a k)) \<and>
         result_of (convolution2d_with_padding_heap h1 img1 kern1 padding)
           = result_of (convolution2d_with_padding_heap h2 img2 kern2 padding) \<and>
         result_of (convolution2d_with_padding_heap h1 img1 kern1 padding)
           = Some (result_of_value (convolution2d_with_padding a k padding)) \<and>
         result_of (max_pooling2d_heap h1 img1 pool_size stride)
           = result_of (max_pooling2d_heap h2 img2 pool_size stride) \<and>
         result_of (max_pooling2d_heap h1 img1 pool_size stride)
           = Some (result_of_value (max_pooling2d a pool_size stride))"
proof -
  have c: "result_of (convolution2d_heap h img kern) = Some (result_of_value (convolution2d a k))"
    if "load_int64 h img = Some a" and "load_int64 h kern = Some k" for h img kern
    using convolution2d_heap_refines [OF that] by auto
  have p: "result_of (convolution2d_with_padding_heap h img kern padding)
             = Some (result_of_value (convolution2d_with_padding a k padding))"
    if "load_int64 h img = Some a" and "load_int64 h kern = Some k" for h img kern
    using convolution2d_with_padding_heap_refines [OF that, of padding] by auto
  have m: "result_of (max_pooling2d_heap h img pool_size stride)
             = Some (result_of_value (max_pooling2d a pool_size stride))"
    if "load_int64 h img = Some a" for h img
    using max_pooling2d_heap_refines [OF that, of pool_size stride] by auto
  show ?thesis
    using assms by (simp add: c p m)
qed

theorem results_depend_on_inputs_only_witness:
  "load_int64 [Int64Array input_image, Int64Array filter_kernel] 0 = Some input_image \<and>
   load_int64 [Int64Array input_image, Int64Array filter_kernel] 1 = Some filter_kernel \<and>
   load_int64 [Float64Array [[0]], Int64Array filter_kernel, Int64Array input_image] 2
     = Some input_image \<and>
   load_int64 [Float64Array [[0]], Int64Array filter_kernel, Int64Array input_image] 1
     = Some filter_kernel \<and>
   result_of (convolution2d_heap [Int64Array input_image, Int64Array filter_kernel] 0 1)
     = result_of (convolution2d_heap
         [Float64Array [[0]], Int64Array filter_kernel, Int64Array input_image] 2 1) \<and>
   result_of (convolution2d_heap [Int64Array input_image, Int64Array filter_kernel] 0 1)
     = Some (Inr (Float64Array [[- 6, - 6, - 6], [- 6, - 6, - 6], [- 6, - 6, - 6]])) \<and>
   result_of (max_pooling2d_heap [Int64Array input_image, Int64Array filter_kernel] 0 2 2)
     = result_of (max_pooling2d_heap
         [Float64Array [[0]], Int64Array filter_kernel, Int64Array input_image] 2 2 2)"
proof -
  let ?h1 = "[Int64Array input_image, Int64Array filter_kernel]"
  let ?h2 = "[Float64Array [[0]], Int64Array filter_kernel, Int64Array input_image]"
  have a: "load_int64 ?h1 0 = Some input_image"
    by (simp add: load_int64_def)
  have b: "load_int64 ?h1 1 = Some filter_kernel"
    by (simp add: load_int64_def)
  have c: "load_int64 ?h2 2 = Some input_image"
    by (simp add: load_int64_def)
  have d: "load_int64 ?h2 1 = Some filter_kernel"
    by (simp add: load_int64_def)
  have e: "result_of_value (convolution2d input_image filter_kernel)
             = Inr (Float64Array [[- 6, - 6, - 6], [- 6, - 6, - 6], [- 6, - 6, - 6]])"
    by code_simp
  note r = results_depend_on_inputs_only [OF a b c d, of 1 2 2]
  from r have f: "result_of (convolution2d_heap ?h1 0 1) = result_of (convolution2d_heap ?h2 2 1)"
    by blast
  from r have "result_of (convolution2d_heap ?h1 0 1)
      = Some (result_of_value (convolution2d input_image filter_kernel))"
    by blast
  then have g: "result_of (convolution2d_heap ?h1 0 1)
      = Some (Inr (Float64Array [[- 6, - 6, - 6], [- 6, - 6, - 6], [- 6, - 6, - 6]]))"
    by (simp only: e)
  from r have h: "result_of (max_pooling2d_heap ?h1 0 2 2)
      = result_of (max_pooling2d_heap ?h2 2 2 2)"
    by blast
  from a b c d f g h show ?thesis
    by (intro conjI)
qed

end
